theory Spec2Isabelle
  imports Complex_Main "HOL-Library.Word" "HOL-Library.Sublist"
begin

section \<open>Processes and the message-passing runtime\<close>

text \<open>
  The four programs are \<open>main\<close> routines run by every rank of a fixed group. A rank's
  program is embedded as a tree of the runtime calls it makes, in program order: each
  node is one call, and a call that delivers a value (a receive, a one-sided read, a clock
  reading) continues with a function of that value. The C variables of \<open>main\<close> are the
  bound variables of the HOL term. \<open>int\<close> is a 32-bit word, \<open>double\<close> is a real number
  (rounding is not modelled), \<open>rank\<close> and \<open>size\<close> are natural numbers.
\<close>

type_synonym cint = "32 word"

datatype stream = Stdout | Stderr

datatype arg = AInt cint | ADouble real

text \<open>Calls that touch nothing shared: a \<open>printf\<close> is kept as its format and arguments.\<close>

datatype call =
    Printf stream string "arg list"
  | Fflush stream
  | Usleep nat
  | MPI_Finalize

text \<open>Collective calls: every rank of the group has to make the same call.\<close>

datatype coll = MPI_Barrier | MPI_Win_create | MPI_Win_fence | MPI_Win_free

text \<open>
  The shared counter is reached through the window (\<open>MPI_Get\<close>, \<open>MPI_Put\<close>) or, on the
  rank that owns it, through the pointer (\<open>*shared_counter\<close>).
\<close>

datatype access = Window | Pointer

datatype 'm proc =
    MPI_Send 'm nat nat "'m proc"
  | MPI_Recv nat nat "'m \<Rightarrow> 'm proc"
  | Collective coll "'m proc"
  | Read_counter access "cint \<Rightarrow> 'm proc"
  | Write_counter access cint "'m proc"
  | MPI_Wtime "real \<Rightarrow> 'm proc"
  | Call call "'m proc"
  | Return int

text \<open>What a rank has done so far, one event for each completed call.\<close>

datatype 'm event =
    Sent 'm nat nat
  | Received 'm nat nat
  | Synced coll
  | Read_ev access cint
  | Wrote access cint
  | Clock real
  | Did call

record 'm world =
  procs :: "'m proc list"
  chans :: "nat \<times> nat \<times> nat \<Rightarrow> 'm list"
  counter :: cint
  trace :: "'m event list list"
  ticks :: nat

text \<open>
  Modelled from the spec: the runtime under the programs is an external collaborator
  (section 6), known here by its contract only. Section 4.1: a blocking send transfers
  the buffer to the matching receive of the destination, matching is by source,
  destination and tag, and messages of one such triple arrive in order; a channel that
  has no buffering capacity makes the send wait for the receive. Section 2 and 5: a
  collective is passed by all ranks together. Section 4.3: one-sided reads and writes
  act on the one shared cell. The environment fixes the buffering capacity of a channel
  and the readings of the wall clock, one for each call of \<open>MPI_Wtime\<close> in the order
  the calls are made.
\<close>

record env =
  cap :: nat
  clk :: "nat \<Rightarrow> real"

definition advance :: "nat \<Rightarrow> 'm proc \<Rightarrow> 'm event \<Rightarrow> 'm world \<Rightarrow> 'm world" where
  "advance i p e w =
     w\<lparr>procs := (procs w)[i := p], trace := (trace w)[i := trace w ! i @ [e]]\<rparr>"

fun at_coll :: "coll \<Rightarrow> 'm proc \<Rightarrow> bool" where
  "at_coll c (Collective c' k) = (c' = c)"
| "at_coll c _ = False"

fun after_coll :: "'m proc \<Rightarrow> 'm proc" where
  "after_coll (Collective c k) = k"
| "after_coll p = p"

text \<open>
  \<open>fire e w i\<close> is the world after rank \<open>i\<close> completes its pending call, or \<open>None\<close> when
  the call cannot complete yet (or the rank has returned). A send completes into the
  channel while the channel has room; into a channel without capacity it completes only
  together with the matching receive. A collective completes for all ranks at once.
\<close>

definition fire :: "env \<Rightarrow> 'm world \<Rightarrow> nat \<Rightarrow> 'm world option" where
  "fire e w i =
    (case procs w ! i of
       MPI_Send m d t k \<Rightarrow>
         if d < length (procs w) \<and> length (chans w (i, d, t)) < cap e then
           Some (advance i k (Sent m d t)
                  (w\<lparr>chans := (chans w)((i, d, t) := chans w (i, d, t) @ [m])\<rparr>))
         else if d < length (procs w) \<and> chans w (i, d, t) = [] then
           (case procs w ! d of
              MPI_Recv s t' f \<Rightarrow>
                if s = i \<and> t' = t then
                  Some (advance d (f m) (Received m i t) (advance i k (Sent m d t) w))
                else None
            | _ \<Rightarrow> None)
         else None
     | MPI_Recv s t f \<Rightarrow>
         (case chans w (s, i, t) of
            [] \<Rightarrow> None
          | m # ms \<Rightarrow>
              Some (advance i (f m) (Received m s t)
                     (w\<lparr>chans := (chans w)((s, i, t) := ms)\<rparr>)))
     | Collective c k \<Rightarrow>
         if list_all (at_coll c) (procs w) then
           Some (w\<lparr>procs := map after_coll (procs w),
                   trace := map (\<lambda>tr. tr @ [Synced c]) (trace w)\<rparr>)
         else None
     | Read_counter a f \<Rightarrow>
         Some (advance i (f (counter w)) (Read_ev a (counter w)) w)
     | Write_counter a v k \<Rightarrow>
         Some (advance i k (Wrote a v) (w\<lparr>counter := v\<rparr>))
     | MPI_Wtime f \<Rightarrow>
         Some (advance i (f (clk e (ticks w))) (Clock (clk e (ticks w)))
                (w\<lparr>ticks := Suc (ticks w)\<rparr>))
     | Call c k \<Rightarrow> Some (advance i k (Did c) w)
     | Return c \<Rightarrow> None)"

definition step :: "env \<Rightarrow> 'm world \<Rightarrow> 'm world \<Rightarrow> bool" where
  "step e w w' = (\<exists>i < length (procs w). fire e w i = Some w')"

definition run :: "env \<Rightarrow> 'm world \<Rightarrow> 'm world \<Rightarrow> bool" where
  "run e = (step e)\<^sup>*\<^sup>*"

definition stuck :: "env \<Rightarrow> 'm world \<Rightarrow> bool" where
  "stuck e w = list_all (\<lambda>i. fire e w i = None) [0..<length (procs w)]"

text \<open>Every execution from \<open>w\<close> is finite.\<close>

inductive terminates :: "env \<Rightarrow> 'm world \<Rightarrow> bool" for e :: env where
  "(\<And>w'. step e w w' \<Longrightarrow> terminates e w') \<Longrightarrow> terminates e w"

text \<open>
  The world at launch: rank \<open>r\<close> of \<open>n\<close> runs \<open>main r n\<close> (the values \<open>MPI_Comm_rank\<close>
  and \<open>MPI_Comm_size\<close> give it), no message is in flight, and the memory that will hold
  the shared counter has some content \<open>mem\<close>.
\<close>

definition init :: "(nat \<Rightarrow> nat \<Rightarrow> 'm proc) \<Rightarrow> nat \<Rightarrow> cint \<Rightarrow> 'm world" where
  "init main n mem =
     \<lparr>procs = map (\<lambda>rank. main rank n) [0..<n], chans = (\<lambda>_. []), counter = mem,
      trace = replicate n [], ticks = 0\<rparr>"

text \<open>A scheduler that always lets the lowest rank that can move go first.\<close>

fun pick :: "env \<Rightarrow> 'm world \<Rightarrow> nat list \<Rightarrow> 'm world option" where
  "pick e w [] = None"
| "pick e w (i # is) = (case fire e w i of Some w' \<Rightarrow> Some w' | None \<Rightarrow> pick e w is)"

fun exec :: "nat \<Rightarrow> env \<Rightarrow> 'm world \<Rightarrow> 'm world" where
  "exec 0 e w = w"
| "exec (Suc n) e w =
     (case pick e w [0..<length (procs w)] of None \<Rightarrow> w | Some w' \<Rightarrow> exec n e w')"

section \<open>Histories\<close>

text \<open>
  A rank's pending process is determined by its program and the events it has completed:
  \<open>replay\<close> runs a program along a history. The messages a history sent to a rank,
  received from a rank, and the collectives it passed are read off by \<open>sends\<close>,
  \<open>recvs\<close> and \<open>syncs\<close>.
\<close>

fun replay :: "'m proc \<Rightarrow> 'm event list \<Rightarrow> 'm proc option" where
  "replay p [] = Some p"
| "replay (MPI_Send m d t k) (e # es) = (if e = Sent m d t then replay k es else None)"
| "replay (MPI_Recv s t f) (e # es) =
     (case e of
        Received m s' t' \<Rightarrow> if s' = s \<and> t' = t then replay (f m) es else None
      | _ \<Rightarrow> None)"
| "replay (Collective c k) (e # es) = (if e = Synced c then replay k es else None)"
| "replay (Read_counter a f) (e # es) =
     (case e of Read_ev a' v \<Rightarrow> if a' = a then replay (f v) es else None | _ \<Rightarrow> None)"
| "replay (Write_counter a v k) (e # es) = (if e = Wrote a v then replay k es else None)"
| "replay (MPI_Wtime f) (e # es) = (case e of Clock x \<Rightarrow> replay (f x) es | _ \<Rightarrow> None)"
| "replay (Call c k) (e # es) = (if e = Did c then replay k es else None)"
| "replay (Return c) (e # es) = None"

fun sent_to :: "nat \<Rightarrow> nat \<Rightarrow> 'm event \<Rightarrow> 'm list" where
  "sent_to d t (Sent m d' t') = (if d' = d \<and> t' = t then [m] else [])"
| "sent_to d t _ = []"

fun received_from :: "nat \<Rightarrow> nat \<Rightarrow> 'm event \<Rightarrow> 'm list" where
  "received_from s t (Received m s' t') = (if s' = s \<and> t' = t then [m] else [])"
| "received_from s t _ = []"

fun synced :: "'m event \<Rightarrow> coll list" where
  "synced (Synced c) = [c]"
| "synced _ = []"

definition sends :: "nat \<Rightarrow> nat \<Rightarrow> 'm event list \<Rightarrow> 'm list" where
  "sends d t tr = concat (map (sent_to d t) tr)"

definition recvs :: "nat \<Rightarrow> nat \<Rightarrow> 'm event list \<Rightarrow> 'm list" where
  "recvs s t tr = concat (map (received_from s t) tr)"

definition syncs :: "'m event list \<Rightarrow> coll list" where
  "syncs tr = concat (map synced tr)"

definition consistent :: "(nat \<Rightarrow> nat \<Rightarrow> 'm proc) \<Rightarrow> nat \<Rightarrow> 'm world \<Rightarrow> bool" where
  "consistent main n w \<longleftrightarrow>
     length (procs w) = n \<and> length (trace w) = n \<and>
     (\<forall>i<n. replay (main i n) (trace w ! i) = Some (procs w ! i)) \<and>
     (\<forall>s<n. \<forall>d<n. \<forall>t. sends d t (trace w ! s) = recvs s t (trace w ! d) @ chans w (s, d, t)) \<and>
     (\<forall>s d t. \<not> (s < n \<and> d < n) \<longrightarrow> chans w (s, d, t) = []) \<and>
     (\<exists>cs. \<forall>i<n. syncs (trace w ! i) = cs)"

primrec depth_le :: "'m proc \<Rightarrow> nat \<Rightarrow> bool" where
  "depth_le (MPI_Send m d t k) n = (case n of 0 \<Rightarrow> False | Suc n' \<Rightarrow> depth_le k n')"
| "depth_le (MPI_Recv s t f) n = (case n of 0 \<Rightarrow> False | Suc n' \<Rightarrow> \<forall>m. depth_le (f m) n')"
| "depth_le (Collective c k) n = (case n of 0 \<Rightarrow> False | Suc n' \<Rightarrow> depth_le k n')"
| "depth_le (Read_counter a f) n = (case n of 0 \<Rightarrow> False | Suc n' \<Rightarrow> \<forall>v. depth_le (f v) n')"
| "depth_le (Write_counter a v k) n = (case n of 0 \<Rightarrow> False | Suc n' \<Rightarrow> depth_le k n')"
| "depth_le (MPI_Wtime f) n = (case n of 0 \<Rightarrow> False | Suc n' \<Rightarrow> \<forall>x. depth_le (f x) n')"
| "depth_le (Call c k) n = (case n of 0 \<Rightarrow> False | Suc n' \<Rightarrow> depth_le k n')"
| "depth_le (Return c) n = True"

definition total :: "'m world \<Rightarrow> nat" where
  "total w = sum_list (map length (trace w))"

section \<open>The ring (mpi\_ring.c)\<close>

definition ring_main :: "nat \<Rightarrow> nat \<Rightarrow> cint proc" where
  "ring_main rank size' =
    (let token = (0::cint) in
     if rank = 0 then
       let token = 42 in
       MPI_Send token ((rank + 1) mod size') 0
      (MPI_Recv (size' - 1) 0 (\<lambda>token.
       Call (Printf Stdout ''Rank %d received final token=%d\<newline>'' [AInt (of_nat rank), AInt token])
      (Call MPI_Finalize
      (Return 0))))
     else
       MPI_Recv (rank - 1) 0 (\<lambda>token.
       let token = token + 1 in
       MPI_Send token ((rank + 1) mod size') 0
      (Call (Printf Stdout ''Rank %d forwarded token=%d\<newline>'' [AInt (of_nat rank), AInt token])
      (Call MPI_Finalize
      (Return 0)))))"

text \<open>The complete history of a forwarding rank that received \<open>v\<close>, and of rank 0.\<close>

definition forwarded :: "nat \<Rightarrow> nat \<Rightarrow> cint \<Rightarrow> cint event list" where
  "forwarded i n v =
     [Received v (i - 1) 0, Sent (v + 1) ((i + 1) mod n) 0,
      Did (Printf Stdout ''Rank %d forwarded token=%d\<newline>'' [AInt (of_nat i), AInt (v + 1)]),
      Did MPI_Finalize]"

definition returned :: "nat \<Rightarrow> cint \<Rightarrow> cint event list" where
  "returned n v =
     [Sent 42 1 0, Received v (n - 1) 0,
      Did (Printf Stdout ''Rank %d received final token=%d\<newline>'' [AInt 0, AInt v]),
      Did MPI_Finalize]"

section \<open>Environments for concrete runs\<close>

text \<open>Channels without capacity (every send is a rendezvous); the \<open>k\<close>-th clock reading is \<open>k\<close>.\<close>

definition env0 :: env where
  "env0 = \<lparr>cap = 0, clk = real\<rparr>"

section \<open>The ping-pong benchmark (mpi\_pingpong.c)\<close>

type_synonym buffer = "8 word list"

definition MSG_SIZE :: nat where
  "MSG_SIZE = 8"

function pingpong_loop ::
  "nat \<Rightarrow> nat \<Rightarrow> nat \<Rightarrow> buffer \<Rightarrow> (buffer \<Rightarrow> buffer proc) \<Rightarrow> buffer proc" where
  "pingpong_loop rank iters i buf rest =
     (if i < iters then
        if rank = 0 then
          MPI_Send buf 1 0
         (MPI_Recv 1 0 (\<lambda>buf.
          pingpong_loop rank iters (i + 1) buf rest))
        else if rank = 1 then
          MPI_Recv 0 0 (\<lambda>buf.
          MPI_Send buf 0 0
         (pingpong_loop rank iters (i + 1) buf rest))
        else pingpong_loop rank iters (i + 1) buf rest
      else rest buf)"
  by pat_completeness auto

termination
  by (relation "measure (\<lambda>(rank, iters, i, buf, rest). iters - i)") auto

declare pingpong_loop.simps [simp del]

text \<open>
  The latency computed after the loop, \<open>(elapsed / (2.0 * iters)) * 1e6\<close>, with \<open>double\<close>
  read as \<open>real\<close>. The program fixes \<open>iters = 10000\<close>. For \<open>iters = 0\<close> the C division
  is by 0.0 and gives an infinity or a NaN, whereas division by 0 in \<open>real\<close> gives 0; the
  definition stands for the C expression only when \<open>iters \<ge> 1\<close>, and every statement
  below about a reported latency is made for \<open>iters \<ge> 1\<close>.
\<close>

definition latency_us :: "real \<Rightarrow> real \<Rightarrow> nat \<Rightarrow> real" where
  "latency_us t0 t1 iters =
     (let elapsed = t1 - t0;
          latency = (elapsed / (2 * real iters)) * 1000000
      in latency)"

definition pingpong_report :: "nat \<Rightarrow> nat \<Rightarrow> nat \<Rightarrow> real \<Rightarrow> buffer \<Rightarrow> buffer proc" where
  "pingpong_report msg_size iters rank t0 buf =
     MPI_Wtime (\<lambda>t1.
     let latency = latency_us t0 t1 iters;
         exit = Call MPI_Finalize (Return 0)
     in
     if rank = 0 then
       Call (Printf Stdout ''PingPong: size=%d bytes, latency=%.3f us\<newline>''
               [AInt (of_nat msg_size), ADouble latency]) exit
     else exit)"

definition pingpong :: "nat \<Rightarrow> nat \<Rightarrow> nat \<Rightarrow> nat \<Rightarrow> buffer proc" where
  "pingpong msg_size iters rank size' =
     (if size' < 2 then
        let exit = Call MPI_Finalize (Return 1) in
        if rank = 0 then Call (Printf Stderr ''Need at least 2 ranks.\<newline>'' []) exit else exit
      else
        let partner = (rank + 1) mod 2;
            buf = replicate msg_size 0
        in
        MPI_Wtime (\<lambda>t0.
        pingpong_loop rank iters 0 buf
       (pingpong_report msg_size iters rank t0)))"

definition pingpong_main :: "nat \<Rightarrow> nat \<Rightarrow> buffer proc" where
  "pingpong_main = pingpong MSG_SIZE 10000"

fun payload :: "'m event \<Rightarrow> 'm list" where
  "payload (Sent m d t) = [m]"
| "payload (Received m s t) = [m]"
| "payload _ = []"

definition payloads :: "'m event list \<Rightarrow> 'm list" where
  "payloads tr = concat (map payload tr)"

definition payloads_ok :: "('m \<Rightarrow> bool) \<Rightarrow> 'm world \<Rightarrow> bool" where
  "payloads_ok P w \<longleftrightarrow>
     (\<forall>i < length (trace w). \<forall>x \<in> set (payloads (trace w ! i)). P x) \<and>
     (\<forall>key. \<forall>x \<in> set (chans w key). P x)"

definition pings :: "buffer \<Rightarrow> nat \<Rightarrow> buffer event list" where
  "pings b j = concat (replicate j [Sent b 1 0, Received b 1 0])"

definition pongs :: "buffer \<Rightarrow> nat \<Rightarrow> buffer event list" where
  "pongs b j = concat (replicate j [Received b 0 0, Sent b 0 0])"

definition ping_history :: "nat \<Rightarrow> nat \<Rightarrow> real \<Rightarrow> real \<Rightarrow> buffer event list" where
  "ping_history S I t0 t1 =
     Clock t0 # pings (replicate S 0) I @
     [Clock t1,
      Did (Printf Stdout ''PingPong: size=%d bytes, latency=%.3f us\<newline>''
             [AInt (of_nat S), ADouble (latency_us t0 t1 I)]),
      Did MPI_Finalize]"

definition pong_history :: "nat \<Rightarrow> nat \<Rightarrow> real \<Rightarrow> real \<Rightarrow> buffer event list" where
  "pong_history S I t0 t1 =
     Clock t0 # pongs (replicate S 0) I @ [Clock t1, Did MPI_Finalize]"

fun clock_of :: "'m event \<Rightarrow> real list" where
  "clock_of (Clock x) = [x]"
| "clock_of _ = []"

definition clocks :: "'m event list \<Rightarrow> real list" where
  "clocks tr = concat (map clock_of tr)"

definition clock_ok :: "env \<Rightarrow> 'm world \<Rightarrow> bool" where
  "clock_ok e w \<longleftrightarrow>
     (\<forall>i < length (trace w). \<exists>ks. clocks (trace w ! i) = map (clk e) ks \<and>
        sorted_wrt (<) ks \<and> (\<forall>k \<in> set ks. k < ticks w))"

definition env1 :: env where
  "env1 = \<lparr>cap = 1, clk = real\<rparr>"

definition frozen :: env where
  "frozen = \<lparr>cap = 0, clk = (\<lambda>k. 0)\<rparr>"

section \<open>The deadlock demonstration (mpi\_deadlock.c)\<close>

definition deadlock_main :: "nat \<Rightarrow> nat \<Rightarrow> cint proc" where
  "deadlock_main rank size' =
    (let send_data = 42;
         recv_data = (0::cint)
     in
     if size' \<noteq> 2 then
       let exit = Call MPI_Finalize (Return 1) in
       if rank = 0 then
         Call (Printf Stdout ''This program requires exactly 2 MPI processes\<newline>'' []) exit
       else exit
     else
       Call (Printf Stdout ''Process %d starting...\<newline>'' [AInt (of_nat rank)])
      (Call (Fflush Stdout)
      (let exit =
             Call (Printf Stdout ''Process %d: Finalizing (this will never execute)\<newline>''
                     [AInt (of_nat rank)])
            (Call MPI_Finalize
            (Return 0))
       in
       if rank = 0 then
         Call (Printf Stdout ''Process 0: Attempting to send to process 1...\<newline>'' [])
        (Call (Fflush Stdout)
        (MPI_Send send_data 1 0
        (Call (Printf Stdout ''Process 0: Send completed, now receiving...\<newline>'' [])
        (MPI_Recv 1 0 (\<lambda>recv_data.
         Call (Printf Stdout ''Process 0: Received %d\<newline>'' [AInt recv_data])
         exit)))))
       else if rank = 1 then
         Call (Printf Stdout ''Process 1: Attempting to send to process 0...\<newline>'' [])
        (Call (Fflush Stdout)
        (MPI_Send send_data 0 0
        (Call (Printf Stdout ''Process 1: Send completed, now receiving...\<newline>'' [])
        (MPI_Recv 0 0 (\<lambda>recv_data.
         Call (Printf Stdout ''Process 1: Received %d\<newline>'' [AInt recv_data])
         exit)))))
       else exit)))"

fun exit_code :: "'m proc \<Rightarrow> int option" where
  "exit_code (Return c) = Some c"
| "exit_code _ = None"

definition attempting :: "nat \<Rightarrow> cint event list" where
  "attempting i =
     [Did (Printf Stdout ''Process %d starting...\<newline>'' [AInt (of_nat i)]),
      Did (Fflush Stdout),
      Did (Printf Stdout
        (if i = 0 then ''Process 0: Attempting to send to process 1...\<newline>''
         else ''Process 1: Attempting to send to process 0...\<newline>'') []),
      Did (Fflush Stdout)]"

section \<open>The race-condition demonstration (mpi\_race\_condition.c)\<close>

text \<open>
  Rank 0 owns the counter and sets it to 0 through its pointer before the window is
  created. Every iteration of the loop is fence, \<open>MPI_Get\<close>, fence, \<open>usleep\<close>,
  increment of the local copy, fence, \<open>MPI_Put\<close>, fence; the value read is in
  \<open>local_value\<close> once the fence after the \<open>MPI_Get\<close> has been passed, which is where the
  program first uses it. Allocation and release of the counter's memory are local to
  rank 0 and leave no event. The loop is written for any bound \<open>num_increments\<close>; the
  program is its instance at \<open>NUM_INCREMENTS\<close>.
\<close>

definition NUM_INCREMENTS :: nat where
  "NUM_INCREMENTS = 1000"

function race_loop :: "nat \<Rightarrow> nat \<Rightarrow> nat \<Rightarrow> nat \<Rightarrow> cint proc \<Rightarrow> cint proc" where
  "race_loop num_increments rank size' i rest =
     (if i < num_increments then
        Collective MPI_Win_fence
       (Read_counter Window (\<lambda>local_value.
        Collective MPI_Win_fence
       (Call (Usleep 1)
       (let local_value = local_value + 1 in
        Collective MPI_Win_fence
       (Write_counter Window local_value
       (Collective MPI_Win_fence
       (let next = race_loop num_increments rank size' (i + 1) rest in
        if i mod 100 = 0 \<and> rank = 0 then
          Call (Printf Stdout ''Process %d: Iteration %d, counter should be %d\<newline>''
                  [AInt (of_nat rank), AInt (of_nat i), AInt ((of_nat i + 1) * of_nat size')])
          next
        else next)))))))
      else rest)"
  by pat_completeness auto

termination
  by (relation "measure (\<lambda>(num_increments, rank, size', i, rest). num_increments - i)") auto

declare race_loop.simps [simp del]

definition race_check :: "nat \<Rightarrow> nat \<Rightarrow> nat \<Rightarrow> cint proc \<Rightarrow> cint proc" where
  "race_check num_increments rank size' cleanup =
     (if rank = 0 then
        let expected = of_nat num_increments * of_nat size' in
        Read_counter Pointer (\<lambda>shared_counter.
        Call (Printf Stdout ''Final counter value: %d (expected: %d)\<newline>''
                [AInt shared_counter, AInt expected])
       (Read_counter Pointer (\<lambda>shared_counter.
        if shared_counter \<noteq> expected then
          Read_counter Pointer (\<lambda>shared_counter.
          Call (Printf Stdout ''RACE CONDITION DETECTED! Lost updates: %d\<newline>''
                  [AInt (expected - shared_counter)])
          cleanup)
        else
          Call (Printf Stdout ''No race detected in this run (but race still exists!)\<newline>'' [])
          cleanup)))
      else cleanup)"

definition race :: "nat \<Rightarrow> nat \<Rightarrow> nat \<Rightarrow> cint proc" where
  "race num_increments rank size' =
     (let create =
            Collective MPI_Win_create
           (Collective MPI_Barrier
           (Call (Printf Stdout ''Process %d: Starting race condition test...\<newline>''
                    [AInt (of_nat rank)])
           (race_loop num_increments rank size' 0
           (Collective MPI_Barrier
           (race_check num_increments rank size'
           (Collective MPI_Win_free
           (Call MPI_Finalize
           (Return 0))))))))
      in
      if rank = 0 then Write_counter Pointer 0 create else create)"

definition race_main :: "nat \<Rightarrow> nat \<Rightarrow> cint proc" where
  "race_main = race NUM_INCREMENTS"

text \<open>
  Program points of the race-condition program, for rank \<open>r\<close> of \<open>n\<close> in iteration \<open>i\<close>:
  the code from the given statement on.
\<close>

definition race_cleanup :: "cint proc" where
  "race_cleanup = Collective MPI_Win_free (Call MPI_Finalize (Return 0))"

definition race_after :: "nat \<Rightarrow> nat \<Rightarrow> nat \<Rightarrow> cint proc" where
  "race_after K r n = Collective MPI_Barrier (race_check K r n race_cleanup)"

definition race_head :: "nat \<Rightarrow> nat \<Rightarrow> nat \<Rightarrow> nat \<Rightarrow> cint proc" where
  "race_head K r n i = race_loop K r n i (race_after K r n)"

definition race_report :: "nat \<Rightarrow> nat \<Rightarrow> nat \<Rightarrow> nat \<Rightarrow> cint proc" where
  "race_report K r n i =
     (if i mod 100 = 0 \<and> r = 0 then
        Call (Printf Stdout ''Process %d: Iteration %d, counter should be %d\<newline>''
                [AInt (of_nat r), AInt (of_nat i), AInt ((of_nat i + 1) * of_nat n)])
        (race_head K r n (i + 1))
      else race_head K r n (i + 1))"

definition race_put :: "nat \<Rightarrow> nat \<Rightarrow> nat \<Rightarrow> nat \<Rightarrow> cint \<Rightarrow> cint proc" where
  "race_put K r n i v = Write_counter Window v (Collective MPI_Win_fence (race_report K r n i))"

definition race_sleep :: "nat \<Rightarrow> nat \<Rightarrow> nat \<Rightarrow> nat \<Rightarrow> cint \<Rightarrow> cint proc" where
  "race_sleep K r n i v = Call (Usleep 1) (Collective MPI_Win_fence (race_put K r n i (v + 1)))"

definition race_get :: "nat \<Rightarrow> nat \<Rightarrow> nat \<Rightarrow> nat \<Rightarrow> cint proc" where
  "race_get K r n i =
     Read_counter Window (\<lambda>v. Collective MPI_Win_fence (race_sleep K r n i v))"

definition race_start :: "nat \<Rightarrow> nat \<Rightarrow> nat \<Rightarrow> cint proc" where
  "race_start K r n =
     Call (Printf Stdout ''Process %d: Starting race condition test...\<newline>'' [AInt (of_nat r)])
       (race_head K r n 0)"

definition race_create :: "nat \<Rightarrow> nat \<Rightarrow> nat \<Rightarrow> cint proc" where
  "race_create K r n = Collective MPI_Win_create (Collective MPI_Barrier (race_start K r n))"

text \<open>
  All ranks pass the collectives together, so at any moment they are in the same phase of
  the program: before the window exists, before the first barrier, between two iterations,
  in the epoch of iteration \<open>i\<close> that reads, in the one that sleeps, in the one that
  writes, in the final check, or after the window has been freed. \<open>local_ok\<close> lists the
  program points a rank can be at in a phase, \<open>counter_ok\<close> the value of the counter.
\<close>

datatype phase =
  Init | Created | Between nat | Reading nat | Sleeping nat | Writing nat | Checking | Freed

fun local_ok :: "nat \<Rightarrow> nat \<Rightarrow> phase \<Rightarrow> nat \<Rightarrow> cint proc \<Rightarrow> bool" where
  "local_ok K n Init r p \<longleftrightarrow>
     p = race_create K r n \<or> r = 0 \<and> p = Write_counter Pointer 0 (race_create K r n)"
| "local_ok K n Created r p \<longleftrightarrow> p = Collective MPI_Barrier (race_start K r n)"
| "local_ok K n (Between i) r p \<longleftrightarrow>
     p = race_head K r n i \<or> (\<exists>c. p = Call c (race_head K r n i))"
| "local_ok K n (Reading i) r p \<longleftrightarrow>
     p = race_get K r n i \<or> p = Collective MPI_Win_fence (race_sleep K r n i (of_nat i))"
| "local_ok K n (Sleeping i) r p \<longleftrightarrow>
     p = race_sleep K r n i (of_nat i) \<or>
     p = Collective MPI_Win_fence (race_put K r n i (of_nat i + 1))"
| "local_ok K n (Writing i) r p \<longleftrightarrow>
     p = race_put K r n i (of_nat i + 1) \<or>
     p = Collective MPI_Win_fence (race_report K r n i)"
| "local_ok K n Checking r p \<longleftrightarrow>
     (\<exists>es. replay (race_check K r n race_cleanup) es = Some p \<and> syncs es = [])"
| "local_ok K n Freed r p \<longleftrightarrow> p = Call MPI_Finalize (Return 0) \<or> p = Return 0"

fun counter_ok :: "nat \<Rightarrow> phase \<Rightarrow> cint world \<Rightarrow> bool" where
  "counter_ok K Init w \<longleftrightarrow> (at_coll MPI_Win_create (procs w ! 0) \<longrightarrow> counter w = 0)"
| "counter_ok K Created w \<longleftrightarrow> counter w = 0"
| "counter_ok K (Between i) w \<longleftrightarrow> i \<le> K \<and> counter w = of_nat i"
| "counter_ok K (Reading i) w \<longleftrightarrow> i < K \<and> counter w = of_nat i"
| "counter_ok K (Sleeping i) w \<longleftrightarrow> i < K \<and> counter w = of_nat i"
| "counter_ok K (Writing i) w \<longleftrightarrow>
     i < K \<and>
     counter w = (if list_ex (at_coll MPI_Win_fence) (procs w) then of_nat i + 1 else of_nat i)"
| "counter_ok K Checking w \<longleftrightarrow> counter w = of_nat K"
| "counter_ok K Freed w \<longleftrightarrow> counter w = of_nat K"

definition race_inv :: "nat \<Rightarrow> nat \<Rightarrow> cint world \<Rightarrow> bool" where
  "race_inv K n w \<longleftrightarrow>
     length (procs w) = n \<and>
     (\<exists>ph. (\<forall>r<n. local_ok K n ph r (procs w ! r)) \<and> counter_ok K ph w)"

text \<open>Every value read through the pointer so far is the loop bound \<open>K\<close>.\<close>

definition ptr_ok :: "nat \<Rightarrow> cint world \<Rightarrow> bool" where
  "ptr_ok K w \<longleftrightarrow>
     (\<forall>i < length (trace w). \<forall>v. Read_ev Pointer v \<in> set (trace w ! i) \<longrightarrow> v = of_nat K)"

text \<open>
  What rank 0 does from the barrier after the loop on, when each of its reads of the
  counter gives \<open>K\<close>.
\<close>

definition race_tail :: "nat \<Rightarrow> nat \<Rightarrow> cint event list" where
  "race_tail K n =
     (let shared_counter = of_nat K;
          expected = of_nat K * of_nat n
      in
      [Synced MPI_Barrier,
       Read_ev Pointer shared_counter,
       Did (Printf Stdout ''Final counter value: %d (expected: %d)\<newline>''
              [AInt shared_counter, AInt expected]),
       Read_ev Pointer shared_counter] @
      (if shared_counter \<noteq> expected then
         [Read_ev Pointer shared_counter,
          Did (Printf Stdout ''RACE CONDITION DETECTED! Lost updates: %d\<newline>''
                 [AInt (expected - shared_counter)])]
       else
         [Did (Printf Stdout ''No race detected in this run (but race still exists!)\<newline>'' [])]) @
      [Synced MPI_Win_free, Did MPI_Finalize])"

section \<open>Properties of the runtime\<close>

lemma replay_append:
  "replay p (tr @ es) = (case replay p tr of None \<Rightarrow> None | Some q \<Rightarrow> replay q es)"
  by (induction p tr rule: replay.induct) (auto split: event.splits)

lemma replay_snoc:
  "replay p tr = Some q \<Longrightarrow> replay q [e] = Some q' \<Longrightarrow> replay p (tr @ [e]) = Some q'"
  by (simp add: replay_append)

lemma fire_cases [consumes 1, case_names Send_buf Send_sync Recv Coll Read Write Wtime Call]:
  assumes "fire e w i = Some w'"
  obtains
    m d t k where "procs w ! i = MPI_Send m d t k" "d < length (procs w)"
      "length (chans w (i, d, t)) < cap e"
      "w' = advance i k (Sent m d t) (w\<lparr>chans := (chans w)((i, d, t) := chans w (i, d, t) @ [m])\<rparr>)"
  | m d t k f where "procs w ! i = MPI_Send m d t k" "d < length (procs w)"
      "chans w (i, d, t) = []" "cap e = 0" "procs w ! d = MPI_Recv i t f"
      "w' = advance d (f m) (Received m i t) (advance i k (Sent m d t) w)"
  | s t f m ms where "procs w ! i = MPI_Recv s t f" "chans w (s, i, t) = m # ms"
      "w' = advance i (f m) (Received m s t) (w\<lparr>chans := (chans w)((s, i, t) := ms)\<rparr>)"
  | c k where "procs w ! i = Collective c k" "list_all (at_coll c) (procs w)"
      "w' = w\<lparr>procs := map after_coll (procs w), trace := map (\<lambda>tr. tr @ [Synced c]) (trace w)\<rparr>"
  | a f where "procs w ! i = Read_counter a f"
      "w' = advance i (f (counter w)) (Read_ev a (counter w)) w"
  | a v k where "procs w ! i = Write_counter a v k"
      "w' = advance i k (Wrote a v) (w\<lparr>counter := v\<rparr>)"
  | f where "procs w ! i = MPI_Wtime f"
      "w' = advance i (f (clk e (ticks w))) (Clock (clk e (ticks w))) (w\<lparr>ticks := Suc (ticks w)\<rparr>)"
  | c k where "procs w ! i = Call c k" "w' = advance i k (Did c) w"
  using assms unfolding fire_def
  by (auto split: proc.splits if_splits list.splits)

lemma sends_simps [simp]:
  "sends d t [] = []"
  "sends d t (tr @ tr') = sends d t tr @ sends d t tr'"
  "sends d t (ev # tr) = sent_to d t ev @ sends d t tr"
  by (simp_all add: sends_def)

lemma recvs_simps [simp]:
  "recvs s t [] = []"
  "recvs s t (tr @ tr') = recvs s t tr @ recvs s t tr'"
  "recvs s t (ev # tr) = received_from s t ev @ recvs s t tr"
  by (simp_all add: recvs_def)

lemma syncs_simps [simp]:
  "syncs [] = []"
  "syncs (tr @ tr') = syncs tr @ syncs tr'"
  "syncs (ev # tr) = synced ev @ syncs tr"
  by (simp_all add: syncs_def)

lemma consistent_init: "consistent main n (init main n mem)"
  by (simp add: consistent_def init_def)

lemma list_all_at_coll:
  "list_all (at_coll c) ps \<Longrightarrow> i < length ps \<Longrightarrow> \<exists>k. ps ! i = Collective c k"
  by (metis at_coll.elims(2) list_all_length)

lemma consistent_fire_coll:
  assumes c: "consistent main n w" and i: "i < n"
    and p: "procs w ! i = Collective c' k" and a: "list_all (at_coll c') (procs w)"
    and w': "w' = w\<lparr>procs := map after_coll (procs w), trace := map (\<lambda>tr. tr @ [Synced c']) (trace w)\<rparr>"
  shows "consistent main n w'"
proof -
  have len: "length (procs w) = n" "length (trace w) = n"
    using c by (simp_all add: consistent_def)
  have rp: "\<And>j. j < n \<Longrightarrow> replay (main j n) (trace w ! j) = Some (procs w ! j)"
    using c by (simp add: consistent_def)
  have at: "\<And>j. j < n \<Longrightarrow> \<exists>k. procs w ! j = Collective c' k"
    using a len by (auto dest: list_all_at_coll)
  have 1: "\<forall>j<n. replay (main j n) (trace w' ! j) = Some (procs w' ! j)"
  proof (intro allI impI)
    fix j assume j: "j < n"
    obtain kj where kj: "procs w ! j = Collective c' kj" using at [OF j] by blast
    show "replay (main j n) (trace w' ! j) = Some (procs w' ! j)"
      using j len rp [OF j] kj by (simp add: w' replay_append)
  qed
  have 2: "\<forall>s<n. \<forall>d<n. \<forall>t. sends d t (trace w' ! s) = recvs s t (trace w' ! d) @ chans w' (s, d, t)"
  proof -
    have "\<forall>s<n. \<forall>d<n. \<forall>t. sends d t (trace w ! s) = recvs s t (trace w ! d) @ chans w (s, d, t)"
      using c unfolding consistent_def by blast
    then show ?thesis using len by (simp add: w')
  qed
  have 3: "\<exists>cs. \<forall>i<n. syncs (trace w' ! i) = cs"
  proof -
    obtain cs where "\<forall>i<n. syncs (trace w ! i) = cs"
      using c unfolding consistent_def by blast
    then have "\<forall>i<n. syncs (trace w' ! i) = cs @ [c']"
      using len by (simp add: w')
    then show ?thesis by blast
  qed
  have 4: "\<forall>s d t. \<not> (s < n \<and> d < n) \<longrightarrow> chans w' (s, d, t) = []"
    using c by (simp add: w' consistent_def)
  show ?thesis unfolding consistent_def using 1 2 3 4 len by (simp add: w')
qed

lemma consistentD:
  assumes "consistent main n w"
  shows "length (procs w) = n" "length (trace w) = n"
    "\<And>i. i < n \<Longrightarrow> replay (main i n) (trace w ! i) = Some (procs w ! i)"
    "\<And>s d t. s < n \<Longrightarrow> d < n \<Longrightarrow>
        sends d t (trace w ! s) = recvs s t (trace w ! d) @ chans w (s, d, t)"
    "\<exists>cs. \<forall>i<n. syncs (trace w ! i) = cs"
    "\<And>s d t. \<not> (s < n \<and> d < n) \<Longrightarrow> chans w (s, d, t) = []"
  using assms unfolding consistent_def by blast+

lemma trace_advance:
  "length (trace w) = n \<Longrightarrow> j < n \<Longrightarrow>
   trace (advance i p ev w) ! j = (if j = i then trace w ! i @ [ev] else trace w ! j)"
  by (simp add: advance_def nth_list_update)

lemma procs_advance:
  "length (procs w) = n \<Longrightarrow> j < n \<Longrightarrow>
   procs (advance i p ev w) ! j = (if j = i then p else procs w ! j)"
  by (simp add: advance_def nth_list_update)

lemma advance_simps [simp]:
  "length (procs (advance i p ev w)) = length (procs w)"
  "length (trace (advance i p ev w)) = length (trace w)"
  "chans (advance i p ev w) = chans w"
  "counter (advance i p ev w) = counter w"
  "ticks (advance i p ev w) = ticks w"
  by (simp_all add: advance_def)

lemma consistent_advance:
  assumes c: "consistent main n w" and i: "i < n"
    and lp: "replay (procs w ! i) [ev] = Some p"
    and ns: "\<And>d t. sent_to d t ev = []" and nr: "\<And>s t. received_from s t ev = []"
    and ny: "synced ev = []"
    and w0: "procs w0 = procs w" "trace w0 = trace w" "chans w0 = chans w"
  shows "consistent main n (advance i p ev w0)"
proof -
  note D = consistentD [OF c]
  have len: "length (procs w0) = n" "length (trace w0) = n"
    using D(1,2) w0 by simp_all
  have 1: "\<forall>j<n. replay (main j n) (trace (advance i p ev w0) ! j) = Some (procs (advance i p ev w0) ! j)"
    using D(3) lp by (simp add: trace_advance [OF len(2)] procs_advance [OF len(1)] w0 replay_append)
  have 2: "\<forall>s<n. \<forall>d<n. \<forall>t. sends d t (trace (advance i p ev w0) ! s) =
      recvs s t (trace (advance i p ev w0) ! d) @ chans (advance i p ev w0) (s, d, t)"
    using D(4) by (simp add: trace_advance [OF len(2)] w0 ns nr)
  obtain cs where "\<forall>i<n. syncs (trace w ! i) = cs" using D(5) by blast
  then have "\<forall>j<n. syncs (trace (advance i p ev w0) ! j) = cs"
    by (simp add: trace_advance [OF len(2)] w0 ny)
  then have 3: "\<exists>cs. \<forall>j<n. syncs (trace (advance i p ev w0) ! j) = cs" by blast
  have 4: "\<forall>s d t. \<not> (s < n \<and> d < n) \<longrightarrow> chans (advance i p ev w0) (s, d, t) = []"
    using D(6) by (simp add: w0)
  show ?thesis unfolding consistent_def using 1 2 3 4 len by simp
qed

lemma consistent_send_buf:
  assumes c: "consistent main n w" and i: "i < n" and d: "d < n"
    and p: "procs w ! i = MPI_Send m d t k"
  shows "consistent main n (advance i k (Sent m d t)
           (w\<lparr>chans := (chans w)((i, d, t) := chans w (i, d, t) @ [m])\<rparr>))"
    (is "consistent main n ?w'")
proof -
  note D = consistentD [OF c]
  let ?w0 = "w\<lparr>chans := (chans w)((i, d, t) := chans w (i, d, t) @ [m])\<rparr>"
  have len: "length (procs ?w0) = n" "length (trace ?w0) = n"
    using D(1,2) by simp_all
  have 1: "\<forall>j<n. replay (main j n) (trace ?w' ! j) = Some (procs ?w' ! j)"
    using D(3) p by (simp add: trace_advance [OF len(2)] procs_advance [OF len(1)] replay_append)
  have 2: "\<forall>s<n. \<forall>d'<n. \<forall>t'. sends d' t' (trace ?w' ! s) =
      recvs s t' (trace ?w' ! d') @ chans ?w' (s, d', t')"
    using D(4) by (simp add: trace_advance [OF len(2)])
  obtain cs where "\<forall>i<n. syncs (trace w ! i) = cs" using D(5) by blast
  then have "\<forall>j<n. syncs (trace ?w' ! j) = cs"
    by (simp add: trace_advance [OF len(2)])
  then have 3: "\<exists>cs. \<forall>j<n. syncs (trace ?w' ! j) = cs" by blast
  have 4: "\<forall>s d t. \<not> (s < n \<and> d < n) \<longrightarrow> chans ?w' (s, d, t) = []"
    using D(6) i d by auto
  show ?thesis unfolding consistent_def using 1 2 3 4 len by simp
qed

lemma consistent_recv:
  assumes c: "consistent main n w" and i: "i < n"
    and p: "procs w ! i = MPI_Recv s t f" and ch: "chans w (s, i, t) = m # ms"
  shows "consistent main n (advance i (f m) (Received m s t)
           (w\<lparr>chans := (chans w)((s, i, t) := ms)\<rparr>))"
    (is "consistent main n ?w'")
proof -
  note D = consistentD [OF c]
  let ?w0 = "w\<lparr>chans := (chans w)((s, i, t) := ms)\<rparr>"
  have len: "length (procs ?w0) = n" "length (trace ?w0) = n"
    using D(1,2) by simp_all
  have 1: "\<forall>j<n. replay (main j n) (trace ?w' ! j) = Some (procs ?w' ! j)"
    using D(3) p by (simp add: trace_advance [OF len(2)] procs_advance [OF len(1)] replay_append)
  have s: "s < n" using D(6) [of s i t] ch by auto
  have 2: "\<forall>s'<n. \<forall>d'<n. \<forall>t'. sends d' t' (trace ?w' ! s') =
      recvs s' t' (trace ?w' ! d') @ chans ?w' (s', d', t')"
    using D(4) D(4) [OF s i, of t] ch by (auto simp: trace_advance [OF len(2)])
  obtain cs where "\<forall>i<n. syncs (trace w ! i) = cs" using D(5) by blast
  then have "\<forall>j<n. syncs (trace ?w' ! j) = cs"
    by (simp add: trace_advance [OF len(2)])
  then have 3: "\<exists>cs. \<forall>j<n. syncs (trace ?w' ! j) = cs" by blast
  have 4: "\<forall>s d t. \<not> (s < n \<and> d < n) \<longrightarrow> chans ?w' (s, d, t) = []"
    using D(6) i s by auto
  show ?thesis unfolding consistent_def using 1 2 3 4 len by simp
qed

lemma consistent_send_sync:
  assumes c: "consistent main n w" and i: "i < n" and d: "d < n"
    and p: "procs w ! i = MPI_Send m d t k" and q: "procs w ! d = MPI_Recv i t f"
    and ch: "chans w (i, d, t) = []"
  shows "consistent main n (advance d (f m) (Received m i t) (advance i k (Sent m d t) w))"
    (is "consistent main n ?w'")
proof -
  note D = consistentD [OF c]
  let ?w0 = "advance i k (Sent m d t) w"
  have ne: "d \<noteq> i" using p q by auto
  have len: "length (procs ?w0) = n" "length (trace ?w0) = n"
    using D(1,2) by simp_all
  have tr: "\<And>j. j < n \<Longrightarrow> trace ?w' ! j =
      (if j = d then trace w ! d @ [Received m i t]
       else if j = i then trace w ! i @ [Sent m d t] else trace w ! j)"
    using ne d by (simp add: trace_advance [OF len(2)] trace_advance [OF D(2)])
  have pr: "\<And>j. j < n \<Longrightarrow> procs ?w' ! j =
      (if j = d then f m else if j = i then k else procs w ! j)"
    using ne by (simp add: procs_advance [OF len(1)] procs_advance [OF D(1)])
  have 1: "\<forall>j<n. replay (main j n) (trace ?w' ! j) = Some (procs ?w' ! j)"
    using D(3) p q by (simp add: tr pr replay_append)
  have 2: "\<forall>s'<n. \<forall>d'<n. \<forall>t'. sends d' t' (trace ?w' ! s') =
      recvs s' t' (trace ?w' ! d') @ chans ?w' (s', d', t')"
    using D(4) ch ne by (simp add: tr)
  obtain cs where "\<forall>i<n. syncs (trace w ! i) = cs" using D(5) by blast
  then have "\<forall>j<n. syncs (trace ?w' ! j) = cs"
    by (simp add: tr)
  then have 3: "\<exists>cs. \<forall>j<n. syncs (trace ?w' ! j) = cs" by blast
  have 4: "\<forall>s d t. \<not> (s < n \<and> d < n) \<longrightarrow> chans ?w' (s, d, t) = []"
    using D(6) by simp
  show ?thesis unfolding consistent_def using 1 2 3 4 len by simp
qed

lemma consistent_fire:
  assumes c: "consistent main n w" and i: "i < n" and f: "fire e w i = Some w'"
  shows "consistent main n w'"
  using f
proof (cases rule: fire_cases)
  case (Send_buf m d t k)
  have "d < n" using Send_buf(2) consistentD(1) [OF c] by simp
  then show ?thesis unfolding Send_buf(4)
    by (rule consistent_send_buf [OF c i _ Send_buf(1)])
next
  case (Send_sync m d t k f)
  have "d < n" using Send_sync(2) consistentD(1) [OF c] by simp
  then show ?thesis unfolding Send_sync(6)
    by (rule consistent_send_sync [OF c i _ Send_sync(1) Send_sync(5) Send_sync(3)])
next
  case (Recv s t f m ms)
  show ?thesis unfolding Recv(3)
    by (rule consistent_recv [OF c i Recv(1) Recv(2)])
next
  case (Coll c' k)
  show ?thesis by (rule consistent_fire_coll [OF c i Coll])
next
  case (Read a f)
  show ?thesis unfolding Read(2)
    by (rule consistent_advance [OF c i]) (simp_all add: Read(1))
next
  case (Write a v k)
  show ?thesis unfolding Write(2)
    by (rule consistent_advance [OF c i]) (simp_all add: Write(1))
next
  case (Wtime f)
  show ?thesis unfolding Wtime(2)
    by (rule consistent_advance [OF c i]) (simp_all add: Wtime(1))
next
  case (Call c' k)
  show ?thesis unfolding Call(2)
    by (rule consistent_advance [OF c i]) (simp_all add: Call(1))
qed

lemma consistent_step:
  "consistent main n w \<Longrightarrow> step e w w' \<Longrightarrow> consistent main n w'"
proof -
  assume c: "consistent main n w" and "step e w w'"
  then obtain i where "i < n" "fire e w i = Some w'"
    unfolding step_def using consistentD(1) [OF c] by auto
  then show ?thesis by (rule consistent_fire [OF c])
qed

lemma run_refl: "run e w w"
  by (simp add: run_def)

lemma run_step: "run e w0 w \<Longrightarrow> step e w w' \<Longrightarrow> run e w0 w'"
  unfolding run_def by (rule rtranclp.rtrancl_into_rtrancl)

lemma run_trans: "run e w0 w \<Longrightarrow> run e w w' \<Longrightarrow> run e w0 w'"
  unfolding run_def by (rule rtranclp_trans)

lemma run_induct [consumes 1, case_names Init Step]:
  assumes r: "run e w0 w" and b: "P w0"
    and s: "\<And>w w'. run e w0 w \<Longrightarrow> P w \<Longrightarrow> step e w w' \<Longrightarrow> P w'"
  shows "P w"
proof -
  have "(step e)\<^sup>*\<^sup>* w0 w" using r by (simp add: run_def)
  then show ?thesis
  proof (induction rule: rtranclp_induct)
    case base
    show ?case by (rule b)
  next
    case (step y z)
    have "run e w0 y" using step(1) by (simp add: run_def)
    then show ?case using step(3) step(2) by (rule s)
  qed
qed

lemma consistent_run:
  assumes "run e (init main n mem) w"
  shows "consistent main n w"
  using assms
proof (induction rule: run_induct)
  case Init
  show ?case by (rule consistent_init)
next
  case (Step w w')
  then show ?case by (simp add: consistent_step)
qed

lemma depth_le_replay:
  "depth_le p n \<Longrightarrow> replay p tr = Some q \<Longrightarrow> length tr \<le> n \<and> depth_le q (n - length tr)"
proof (induction tr arbitrary: p n)
  case Nil
  then show ?case by simp
next
  case (Cons ev tr)
  show ?case
  proof (cases n)
    case 0
    with Cons.prems show ?thesis by (cases p) (simp_all split: event.splits if_splits)
  next
    case (Suc n')
    with Cons.prems Cons.IH show ?thesis
      by (cases p) (auto split: event.splits if_splits)
  qed
qed

lemma sum_length_update:
  "i < length xs \<Longrightarrow>
   sum_list (map length (xs[i := xs ! i @ [ev]])) = Suc (sum_list (map length xs))"
  by (induction xs arbitrary: i) (auto simp: nth_Cons split: nat.splits)

lemma total_advance:
  "i < length (trace w) \<Longrightarrow> total (advance i p ev w) = Suc (total w)"
  by (simp add: total_def advance_def sum_length_update)

lemma total_advance_chans [simp]:
  "total (w\<lparr>chans := c\<rparr>) = total w" "total (w\<lparr>counter := v\<rparr>) = total w"
  "total (w\<lparr>ticks := k\<rparr>) = total w"
  by (simp_all add: total_def)

lemma sum_length_snoc:
  "sum_list (map (length \<circ> (\<lambda>tr. tr @ [ev])) xs) = sum_list (map length xs) + length xs"
  by (induction xs) auto

lemma total_fire:
  assumes c: "consistent main n w" and i: "i < n" and f: "fire e w i = Some w'"
  shows "total w < total w'"
proof -
  have len: "length (trace w) = n" "length (procs w) = n"
    using consistentD(1,2) [OF c] by simp_all
  from f show ?thesis
  proof (cases rule: fire_cases)
    case (Coll c' k)
    then show ?thesis using i len by (simp add: total_def sum_length_snoc)
  qed (simp_all add: total_advance len i)
qed

lemma sum_list_le:
  "(\<And>x. x \<in> set xs \<Longrightarrow> f x \<le> (B::nat)) \<Longrightarrow> sum_list (map f xs) \<le> length xs * B"
  by (induction xs) (auto simp: add_mono)

lemma total_bound:
  assumes c: "consistent main n w" and b: "\<And>i. i < n \<Longrightarrow> depth_le (main i n) B"
  shows "total w \<le> n * B"
proof -
  have "length x \<le> B" if xin: "x \<in> set (trace w)" for x
  proof -
    obtain i where "i < length (trace w)" "trace w ! i = x"
      using xin by (auto simp: in_set_conv_nth)
    then have i: "i < n" "x = trace w ! i"
      using consistentD(2) [OF c] by simp_all
    show ?thesis
      using depth_le_replay [OF b [OF i(1)] consistentD(3) [OF c i(1)]] i(2) by simp
  qed
  then have "sum_list (map length (trace w)) \<le> length (trace w) * B"
    by (rule sum_list_le)
  then show ?thesis using consistentD(2) [OF c] by (simp add: total_def)
qed

lemma terminates_consistent:
  assumes b: "\<And>i. i < n \<Longrightarrow> depth_le (main i n) B"
  shows "consistent main n w \<Longrightarrow> terminates e w"
proof (induction "n * B - total w" arbitrary: w rule: less_induct)
  case less
  show ?case
  proof (rule terminates.intros)
    fix w' assume st: "step e w w'"
    then obtain i where i: "i < n" "fire e w i = Some w'"
      unfolding step_def using consistentD(1) [OF less.prems] by auto
    have c': "consistent main n w'" using less.prems st by (rule consistent_step)
    have "total w < total w'" using less.prems i by (rule total_fire)
    moreover have "total w' \<le> n * B" using c' b by (rule total_bound)
    ultimately have "n * B - total w' < n * B - total w" by simp
    then show "terminates e w'" using c' by (rule less.hyps)
  qed
qed

lemma terminates_init:
  "(\<And>i. i < n \<Longrightarrow> depth_le (main i n) B) \<Longrightarrow> terminates e (init main n mem)"
  by (rule terminates_consistent [OF _ consistent_init])

lemma stuck_iff: "stuck e w \<longleftrightarrow> (\<forall>i<length (procs w). fire e w i = None)"
  by (auto simp: stuck_def list_all_iff)

lemma stuck_step: "stuck e w \<longleftrightarrow> (\<forall>w'. \<not> step e w w')"
proof
  assume "stuck e w"
  then show "\<forall>w'. \<not> step e w w'" by (auto simp: stuck_iff step_def)
next
  assume a: "\<forall>w'. \<not> step e w w'"
  show "stuck e w" unfolding stuck_iff
  proof (intro allI impI)
    fix i assume "i < length (procs w)"
    then have "fire e w i \<noteq> Some w'" for w' using a by (auto simp: step_def)
    then show "fire e w i = None" by (cases "fire e w i") auto
  qed
qed

lemma terminates_ends: "terminates e w \<Longrightarrow> \<exists>w'. run e w w' \<and> stuck e w'"
proof (induction rule: terminates.induct)
  case (1 w)
  show ?case
  proof (cases "stuck e w")
    case True
    then show ?thesis using run_refl by blast
  next
    case False
    then obtain w1 where s: "step e w w1" by (auto simp: stuck_step)
    then obtain w' where "run e w1 w'" "stuck e w'" using 1 by blast
    moreover have "run e w w1" using run_refl s by (rule run_step)
    ultimately show ?thesis using run_trans by blast
  qed
qed

lemma pick_Some: "pick e w js = Some w' \<Longrightarrow> \<exists>i\<in>set js. fire e w i = Some w'"
  by (induction js) (auto split: option.splits)

lemma run_exec: "run e w (exec k e w)"
proof (induction k arbitrary: w)
  case 0
  show ?case by (simp add: run_refl)
next
  case (Suc k)
  show ?case
  proof (cases "pick e w [0..<length (procs w)]")
    case None
    then show ?thesis by (simp add: run_refl)
  next
    case (Some w1)
    then have "step e w w1" using pick_Some [OF Some] by (auto simp: step_def)
    then have "run e w w1" using run_refl run_step by blast
    then show ?thesis using Some Suc [of w1] run_trans by fastforce
  qed
qed

lemma stuck_cases [consumes 2, case_names Returned Sending Receiving Waiting]:
  assumes "stuck e w" "i < length (procs w)"
  obtains
    c where "procs w ! i = Return c"
  | m d t k where "procs w ! i = MPI_Send m d t k"
      "\<not> (d < length (procs w) \<and> length (chans w (i, d, t)) < cap e)"
      "\<And>f. d < length (procs w) \<Longrightarrow> chans w (i, d, t) = [] \<Longrightarrow> procs w ! d \<noteq> MPI_Recv i t f"
  | s t f where "procs w ! i = MPI_Recv s t f" "chans w (s, i, t) = []"
  | c k where "procs w ! i = Collective c k" "\<not> list_all (at_coll c) (procs w)"
proof -
  have f: "fire e w i = None" using assms by (simp add: stuck_iff)
  show ?thesis
  proof (cases "procs w ! i")
    case (MPI_Send m d t k)
    then show ?thesis using f that(2) [of m d t k]
      by (auto simp: fire_def split: if_splits proc.splits)
  next
    case (MPI_Recv s t f)
    then show ?thesis using f that(3) by (auto simp: fire_def split: list.splits)
  next
    case (Collective c k)
    then show ?thesis using f that(4) by (auto simp: fire_def split: if_splits)
  next
    case (Return c)
    then show ?thesis using that(1) by blast
  qed (use f in \<open>simp_all add: fire_def\<close>)
qed

section \<open>The ring: proofs\<close>

lemma replay_Send:
  "replay (MPI_Send m d t k) tr = Some p \<longleftrightarrow>
     tr = [] \<and> p = MPI_Send m d t k \<or> (\<exists>es. tr = Sent m d t # es \<and> replay k es = Some p)"
  by (cases tr) auto

lemma replay_Recv:
  "replay (MPI_Recv s t f) tr = Some p \<longleftrightarrow>
     tr = [] \<and> p = MPI_Recv s t f \<or>
     (\<exists>m es. tr = Received m s t # es \<and> replay (f m) es = Some p)"
  by (cases tr) (auto split: event.splits)

lemma replay_Collective:
  "replay (Collective c k) tr = Some p \<longleftrightarrow>
     tr = [] \<and> p = Collective c k \<or> (\<exists>es. tr = Synced c # es \<and> replay k es = Some p)"
  by (cases tr) auto

lemma replay_Read:
  "replay (Read_counter a f) tr = Some p \<longleftrightarrow>
     tr = [] \<and> p = Read_counter a f \<or>
     (\<exists>v es. tr = Read_ev a v # es \<and> replay (f v) es = Some p)"
  by (cases tr) (auto split: event.splits)

lemma replay_Write:
  "replay (Write_counter a v k) tr = Some p \<longleftrightarrow>
     tr = [] \<and> p = Write_counter a v k \<or> (\<exists>es. tr = Wrote a v # es \<and> replay k es = Some p)"
  by (cases tr) auto

lemma replay_Wtime:
  "replay (MPI_Wtime f) tr = Some p \<longleftrightarrow>
     tr = [] \<and> p = MPI_Wtime f \<or> (\<exists>x es. tr = Clock x # es \<and> replay (f x) es = Some p)"
  by (cases tr) (auto split: event.splits)

lemma replay_Call:
  "replay (Call c k) tr = Some p \<longleftrightarrow>
     tr = [] \<and> p = Call c k \<or> (\<exists>es. tr = Did c # es \<and> replay k es = Some p)"
  by (cases tr) auto

lemma replay_Return:
  "replay (Return c) tr = Some p \<longleftrightarrow> tr = [] \<and> p = Return c"
  by (cases tr) auto

lemmas replay_iffs = replay_Send replay_Recv replay_Collective replay_Read replay_Write
  replay_Wtime replay_Call replay_Return

lemma ring_depth: "depth_le (ring_main i n) 4"
  by (simp add: ring_main_def Let_def)

lemma ring_rank_states:
  assumes "replay (ring_main i n) tr = Some p" "i \<noteq> 0"
  shows "(tr = [] \<and> (\<exists>f. p = MPI_Recv (i - 1) 0 f)) \<or>
    (\<exists>v k. tr = [Received v (i - 1) 0] \<and> p = MPI_Send (v + 1) ((i + 1) mod n) 0 k) \<or>
    (\<exists>v c k. tr = [Received v (i - 1) 0, Sent (v + 1) ((i + 1) mod n) 0] \<and> p = Call c k) \<or>
    (\<exists>v c k. tr = [Received v (i - 1) 0, Sent (v + 1) ((i + 1) mod n) 0,
        Did (Printf Stdout ''Rank %d forwarded token=%d\<newline>'' [AInt (of_nat i), AInt (v + 1)])] \<and>
        p = Call c k) \<or>
    (\<exists>v. tr = [Received v (i - 1) 0, Sent (v + 1) ((i + 1) mod n) 0,
        Did (Printf Stdout ''Rank %d forwarded token=%d\<newline>'' [AInt (of_nat i), AInt (v + 1)]),
        Did MPI_Finalize] \<and> p = Return 0)"
  using assms by (auto simp: ring_main_def Let_def replay_iffs)

lemma ring_rank0_states:
  assumes "replay (ring_main 0 n) tr = Some p"
  shows "(tr = [] \<and> (\<exists>k. p = MPI_Send 42 (1 mod n) 0 k)) \<or>
    (tr = [Sent 42 (1 mod n) 0] \<and> (\<exists>f. p = MPI_Recv (n - 1) 0 f)) \<or>
    (\<exists>v c k. tr = [Sent 42 (1 mod n) 0, Received v (n - 1) 0] \<and> p = Call c k) \<or>
    (\<exists>v c k. tr = [Sent 42 (1 mod n) 0, Received v (n - 1) 0,
        Did (Printf Stdout ''Rank %d received final token=%d\<newline>'' [AInt 0, AInt v])] \<and>
        p = Call c k) \<or>
    (\<exists>v. tr = [Sent 42 (1 mod n) 0, Received v (n - 1) 0,
        Did (Printf Stdout ''Rank %d received final token=%d\<newline>'' [AInt 0, AInt v]),
        Did MPI_Finalize] \<and> p = Return 0)"
  using assms by (auto simp: ring_main_def Let_def replay_iffs)

lemma stuck_Send:
  "stuck e w \<Longrightarrow> i < length (procs w) \<Longrightarrow> procs w ! i = MPI_Send m d t k \<Longrightarrow>
   d < length (procs w) \<Longrightarrow> chans w (i, d, t) = [] \<Longrightarrow> procs w ! d \<noteq> MPI_Recv i t f"
  by (auto simp: stuck_iff fire_def split: if_splits)

lemma stuck_Send_room:
  "stuck e w \<Longrightarrow> i < length (procs w) \<Longrightarrow> procs w ! i = MPI_Send m d t k \<Longrightarrow>
   d < length (procs w) \<Longrightarrow> cap e \<le> length (chans w (i, d, t))"
  by (auto simp: stuck_iff fire_def split: if_splits)

lemma stuck_Recv:
  "stuck e w \<Longrightarrow> i < length (procs w) \<Longrightarrow> procs w ! i = MPI_Recv s t f \<Longrightarrow>
   chans w (s, i, t) = []"
  by (auto simp: stuck_iff fire_def split: list.splits)

lemma stuck_Call:
  "stuck e w \<Longrightarrow> i < length (procs w) \<Longrightarrow> procs w ! i \<noteq> Call c k"
  by (auto simp: stuck_iff fire_def)

lemma stuck_Read:
  "stuck e w \<Longrightarrow> i < length (procs w) \<Longrightarrow> procs w ! i \<noteq> Read_counter a f"
  by (auto simp: stuck_iff fire_def)

lemma stuck_Write:
  "stuck e w \<Longrightarrow> i < length (procs w) \<Longrightarrow> procs w ! i \<noteq> Write_counter a v k"
  by (auto simp: stuck_iff fire_def)

lemma stuck_Wtime:
  "stuck e w \<Longrightarrow> i < length (procs w) \<Longrightarrow> procs w ! i \<noteq> MPI_Wtime f"
  by (auto simp: stuck_iff fire_def)

lemma stuck_Collective:
  "stuck e w \<Longrightarrow> i < length (procs w) \<Longrightarrow> procs w ! i = Collective c k \<Longrightarrow>
   \<not> list_all (at_coll c) (procs w)"
  by (auto simp: stuck_iff fire_def split: if_splits)

lemma ring_rank0_sent:
  assumes n: "2 \<le> n" and c: "consistent ring_main n w" and st: "stuck e w"
  shows "trace w ! 0 \<noteq> []"
proof
  assume t0: "trace w ! 0 = []"
  note D = consistentD [OF c]
  have p0: "\<exists>k. procs w ! 0 = MPI_Send 42 1 0 k"
    using ring_rank0_states [OF D(3) [of 0]] t0 n by auto
  have "sends 1 0 (trace w ! 0) = recvs 0 0 (trace w ! 1) @ chans w (0, 1, 0)"
    using D(4) [of 0 1 0] n by simp
  then have e: "recvs 0 0 (trace w ! 1) = []" "chans w (0, 1, 0) = []"
    using t0 by simp_all
  have "\<exists>f. procs w ! 1 = MPI_Recv 0 0 f"
    using ring_rank_states [OF D(3) [of 1]] e(1) n by auto
  then show False using stuck_Send [OF st, of 0 _ 1 0] p0 e(2) D(1) n by auto
qed

lemma ring_rank_done:
  assumes n: "2 \<le> n" and c: "consistent ring_main n w" and st: "stuck e w"
    and i: "1 \<le> i" "i < n"
    and prev: "sends i 0 (trace w ! (i - 1)) = [41 + of_nat i]"
  shows "procs w ! i = Return 0 \<and> trace w ! i = forwarded i n (41 + of_nat i)"
proof -
  note D = consistentD [OF c]
  let ?d = "(i + 1) mod n"
  have d: "?d < n" using n by simp
  have ch: "[41 + of_nat i] = recvs (i - 1) 0 (trace w ! i) @ chans w (i - 1, i, 0)"
    using D(4) [of "i - 1" i 0] i prev by simp
  have i0: "i \<noteq> 0" using i by simp
  from ring_rank_states [OF D(3) [OF i(2)] i0]
  consider
    (wait) f where "trace w ! i = []" "procs w ! i = MPI_Recv (i - 1) 0 f"
  | (hold) v k where "trace w ! i = [Received v (i - 1) 0]"
      "procs w ! i = MPI_Send (v + 1) ?d 0 k"
  | (call) c' k where "procs w ! i = Call c' k"
  | (fin) v where "trace w ! i = forwarded i n v" "procs w ! i = Return 0"
    unfolding forwarded_def by blast
  then show ?thesis
  proof cases
    case wait
    have "chans w (i - 1, i, 0) = []"
      using stuck_Recv [OF st _ wait(2)] i D(1) by simp
    then show ?thesis using ch wait(1) by simp
  next
    case hold
    have "sends ?d 0 (trace w ! i) = recvs i 0 (trace w ! ?d) @ chans w (i, ?d, 0)"
      using D(4) [OF i(2) d] by simp
    then have e: "recvs i 0 (trace w ! ?d) = []" "chans w (i, ?d, 0) = []"
      using hold(1) i n by (simp_all add: mod_Suc)
    have "\<exists>f. procs w ! ?d = MPI_Recv i 0 f"
    proof (cases "i + 1 < n")
      case True
      then show ?thesis
        using ring_rank_states [OF D(3) [OF d]] e(1) by auto
    next
      case False
      then have "Suc i = n" using i by simp
      then have d0: "?d = 0" "n - 1 = i" by auto
      show ?thesis
        using ring_rank0_states [OF D(3) [of 0]] e(1) ring_rank0_sent [OF n c st] n
        unfolding d0 by auto
    qed
    then show ?thesis
      using stuck_Send [OF st _ hold(2) _ e(2)] i d D(1) by auto
  next
    case call
    then show ?thesis using stuck_Call [OF st, of i] i D(1) by simp
  next
    case fin
    have "recvs (i - 1) 0 (trace w ! i) = [v]"
      using fin(1) by (simp add: forwarded_def)
    then have "v = 41 + of_nat i" using ch by simp
    then show ?thesis using fin by simp
  qed
qed

lemma ring_ranks_done:
  assumes n: "2 \<le> n" and c: "consistent ring_main n w" and st: "stuck e w"
  shows "1 \<le> i \<Longrightarrow> i < n \<Longrightarrow>
    procs w ! i = Return 0 \<and> trace w ! i = forwarded i n (41 + of_nat i)"
proof (induction i)
  case 0
  then show ?case by simp
next
  case (Suc i)
  note D = consistentD [OF c]
  have "sends (Suc i) 0 (trace w ! i) = [41 + of_nat (Suc i)]"
  proof (cases "i = 0")
    case True
    then show ?thesis
      using ring_rank0_states [OF D(3) [of 0]] ring_rank0_sent [OF n c st] n by auto
  next
    case False
    then have "trace w ! i = forwarded i n (41 + of_nat i)"
      using Suc by simp
    then show ?thesis using Suc.prems by (simp add: forwarded_def)
  qed
  then show ?case
    using ring_rank_done [OF n c st, of "Suc i"] Suc.prems by simp
qed

lemma ring_rank0_done:
  assumes n: "2 \<le> n" and c: "consistent ring_main n w" and st: "stuck e w"
  shows "procs w ! 0 = Return 0 \<and> trace w ! 0 = returned n (42 + of_nat (n - 1))"
proof -
  note D = consistentD [OF c]
  have "trace w ! (n - 1) = forwarded (n - 1) n (41 + of_nat (n - 1))"
    using ring_ranks_done [OF n c st, of "n - 1"] n by simp
  then have "sends 0 0 (trace w ! (n - 1)) = [42 + of_nat (n - 1)]"
    using n by (simp add: forwarded_def)
  then have ch: "[42 + of_nat (n - 1)] = recvs (n - 1) 0 (trace w ! 0) @ chans w (n - 1, 0, 0)"
    using D(4) [of "n - 1" 0 0] n by simp
  from ring_rank0_states [OF D(3) [of 0]] ring_rank0_sent [OF n c st] n
  consider
    (wait) f where "trace w ! 0 = [Sent 42 1 0]" "procs w ! 0 = MPI_Recv (n - 1) 0 f"
  | (call) c' k where "procs w ! 0 = Call c' k"
  | (fin) v where "trace w ! 0 = returned n v" "procs w ! 0 = Return 0"
    unfolding returned_def by auto
  then show ?thesis
  proof cases
    case wait
    have "chans w (n - 1, 0, 0) = []"
      using stuck_Recv [OF st _ wait(2)] n D(1) by simp
    then show ?thesis using ch wait(1) n by simp
  next
    case call
    then show ?thesis using stuck_Call [OF st, of 0] n D(1) by simp
  next
    case fin
    have "recvs (n - 1) 0 (trace w ! 0) = [v]"
      using fin(1) n by (simp add: returned_def)
    then have "v = 42 + of_nat (n - 1)" using ch by simp
    then show ?thesis using fin by simp
  qed
qed

text \<open>
  C1. Ring correctness: for every world size \<open>n \<ge> 2\<close> (and whatever the capacity of
  the channels) every execution of the ring program ends, and ends with all ranks
  returned with exit code 0; rank 0 has then received, from rank \<open>n - 1\<close>, the initial
  token 42 plus \<open>n - 1\<close>, and every rank \<open>i\<close> between 1 and \<open>n - 1\<close> has received a
  value \<open>v\<close> (which is \<open>41 + i\<close>) from rank \<open>i - 1\<close> and forwarded \<open>v + 1\<close>.
\<close>

theorem ring_token_returns:
  assumes "2 \<le> n"
  shows "terminates e (init ring_main n mem) \<and>
    (\<forall>w. run e (init ring_main n mem) w \<and> stuck e w \<longrightarrow>
       procs w = replicate n (Return 0) \<and>
       trace w ! 0 =
         [Sent 42 1 0, Received (42 + of_nat (n - 1)) (n - 1) 0,
          Did (Printf Stdout ''Rank %d received final token=%d\<newline>''
                 [AInt 0, AInt (42 + of_nat (n - 1))]),
          Did MPI_Finalize] \<and>
       (\<forall>i. 1 \<le> i \<and> i < n \<longrightarrow>
          (\<exists>v. v = 41 + of_nat i \<and> trace w ! i =
             [Received v (i - 1) 0, Sent (v + 1) ((i + 1) mod n) 0,
              Did (Printf Stdout ''Rank %d forwarded token=%d\<newline>''
                     [AInt (of_nat i), AInt (v + 1)]),
              Did MPI_Finalize])))"
proof (intro conjI allI impI)
  show "terminates e (init ring_main n mem)"
    by (rule terminates_init [where B = 4]) (rule ring_depth)
next
  fix w assume "run e (init ring_main n mem) w \<and> stuck e w"
  then have c: "consistent ring_main n w" and st: "stuck e w"
    by (auto intro: consistent_run)
  note D = consistentD [OF c]
  have r0: "procs w ! 0 = Return 0 \<and> trace w ! 0 = returned n (42 + of_nat (n - 1))"
    using assms c st by (rule ring_rank0_done)
  have ri: "procs w ! i = Return 0 \<and> trace w ! i = forwarded i n (41 + of_nat i)"
    if "1 \<le> i" "i < n" for i
    using ring_ranks_done [OF assms c st that] .
  show "procs w = replicate n (Return 0)"
  proof (rule nth_equalityI)
    show "length (procs w) = length (replicate n (Return 0 :: cint proc))"
      using D(1) by simp
  next
    fix i assume "i < length (procs w)"
    then have "i < n" using D(1) by simp
    then show "procs w ! i = replicate n (Return 0) ! i"
      using r0 ri [of i] by (cases "i = 0") simp_all
  qed
  show "trace w ! 0 =
         [Sent 42 1 0, Received (42 + of_nat (n - 1)) (n - 1) 0,
          Did (Printf Stdout ''Rank %d received final token=%d\<newline>''
                 [AInt 0, AInt (42 + of_nat (n - 1))]),
          Did MPI_Finalize]"
    using r0 by (simp add: returned_def)
  fix i assume "1 \<le> i \<and> i < n"
  then show "\<exists>v. v = 41 + of_nat i \<and> trace w ! i =
             [Received v (i - 1) 0, Sent (v + 1) ((i + 1) mod n) 0,
              Did (Printf Stdout ''Rank %d forwarded token=%d\<newline>''
                     [AInt (of_nat i), AInt (v + 1)]),
              Did MPI_Finalize]"
    using ri [of i] by (simp add: forwarded_def)
qed

theorem ring_token_returns_witness:
  "2 \<le> (3::nat) \<and>
   run env0 (init ring_main 3 0) (exec 20 env0 (init ring_main 3 0)) \<and>
   stuck env0 (exec 20 env0 (init ring_main 3 0)) \<and>
   procs (exec 20 env0 (init ring_main 3 0)) = replicate 3 (Return 0) \<and>
   trace (exec 20 env0 (init ring_main 3 0)) ! 0 =
     [Sent 42 1 0, Received 44 2 0,
      Did (Printf Stdout ''Rank %d received final token=%d\<newline>'' [AInt 0, AInt 44]),
      Did MPI_Finalize] \<and>
   trace (exec 20 env0 (init ring_main 3 0)) ! 2 =
     [Received 43 1 0, Sent 44 0 0,
      Did (Printf Stdout ''Rank %d forwarded token=%d\<newline>'' [AInt 2, AInt 44]),
      Did MPI_Finalize]"
proof -
  have r: "run env0 (init ring_main 3 0) (exec 20 env0 (init ring_main 3 0))"
    by (rule run_exec)
  have s: "stuck env0 (exec 20 env0 (init ring_main 3 0))"
    by code_simp
  show ?thesis
    using ring_token_returns [of 3 env0 0] r s by simp
qed

section \<open>The ping-pong benchmark: proofs\<close>

lemma payloads_simps [simp]:
  "payloads [] = []"
  "payloads (tr @ tr') = payloads tr @ payloads tr'"
  "payloads (ev # tr) = payload ev @ payloads tr"
  by (simp_all add: payloads_def)

lemma payloads_ok_advance:
  assumes "payloads_ok P w" "\<forall>x \<in> set (payload ev). P x"
  shows "payloads_ok P (advance i p ev w)"
proof -
  have old: "\<And>j. j < length (trace w) \<Longrightarrow> \<forall>x \<in> set (payloads (trace w ! j)). P x"
    using assms(1) unfolding payloads_ok_def by blast
  have "\<forall>x \<in> set (payloads (trace (advance i p ev w) ! j)). P x"
    if j: "j < length (trace w)" for j
  proof (cases "j = i")
    case True
    then show ?thesis using j old [OF j] assms(2) by (auto simp: advance_def)
  next
    case False
    then show ?thesis using j old [OF j] by (simp add: advance_def)
  qed
  moreover have "\<forall>key. \<forall>x \<in> set (chans (advance i p ev w) key). P x"
    using assms(1) unfolding payloads_ok_def by simp
  ultimately show ?thesis unfolding payloads_ok_def by simp
qed

lemma payloads_ok_fire:
  assumes ok: "payloads_ok P w" and c: "consistent main n w" and i: "i < n"
    and f: "fire e w i = Some w'"
    and loc: "\<And>i tr m d t k. i < n \<Longrightarrow> replay (main i n) tr = Some (MPI_Send m d t k) \<Longrightarrow>
        \<forall>x \<in> set (payloads tr). P x \<Longrightarrow> P m"
  shows "payloads_ok P w'"
proof -
  note D = consistentD [OF c]
  have tr: "\<forall>x \<in> set (payloads (trace w ! i)). P x"
    using ok i D(2) by (simp add: payloads_ok_def)
  have snd: "P m" if "procs w ! i = MPI_Send m d t k" for m d t k
    using loc [OF i _ tr] D(3) [OF i] that by simp
  from f show ?thesis
  proof (cases rule: fire_cases)
    case (Send_buf m d t k)
    have "payloads_ok P (w\<lparr>chans := (chans w)((i, d, t) := chans w (i, d, t) @ [m])\<rparr>)"
      using ok snd [OF Send_buf(1)] by (simp add: payloads_ok_def)
    then show ?thesis unfolding Send_buf(4)
      using snd [OF Send_buf(1)] by (intro payloads_ok_advance) simp_all
  next
    case (Send_sync m d t k f)
    show ?thesis unfolding Send_sync(6)
      using snd [OF Send_sync(1)] ok by (intro payloads_ok_advance) simp_all
  next
    case (Recv s t f m ms)
    have "\<forall>x \<in> set (chans w (s, i, t)). P x"
      using ok unfolding payloads_ok_def by blast
    then have m: "P m" "\<forall>x \<in> set ms. P x" using Recv(2) by simp_all
    have "payloads_ok P (w\<lparr>chans := (chans w)((s, i, t) := ms)\<rparr>)"
      using ok m(2) unfolding payloads_ok_def by simp
    then show ?thesis unfolding Recv(3)
      using m by (intro payloads_ok_advance) simp_all
  next
    case (Coll c' k)
    then show ?thesis using ok by (simp add: payloads_ok_def)
  next
    case (Read a f)
    show ?thesis unfolding Read(2) using ok by (intro payloads_ok_advance) simp_all
  next
    case (Write a v k)
    have "payloads_ok P (w\<lparr>counter := v\<rparr>)" using ok by (simp add: payloads_ok_def)
    then show ?thesis unfolding Write(2) by (intro payloads_ok_advance) simp_all
  next
    case (Wtime f)
    have "payloads_ok P (w\<lparr>ticks := Suc (ticks w)\<rparr>)" using ok by (simp add: payloads_ok_def)
    then show ?thesis unfolding Wtime(2) by (intro payloads_ok_advance) simp_all
  next
    case (Call c' k)
    show ?thesis unfolding Call(2) using ok by (intro payloads_ok_advance) simp_all
  qed
qed

lemma payloads_ok_run:
  assumes r: "run e (init main n mem) w"
    and loc: "\<And>i tr m d t k. i < n \<Longrightarrow> replay (main i n) tr = Some (MPI_Send m d t k) \<Longrightarrow>
        \<forall>x \<in> set (payloads tr). P x \<Longrightarrow> P m"
  shows "payloads_ok P w"
  using r
proof (induction rule: run_induct)
  case Init
  show ?case by (simp add: payloads_ok_def init_def)
next
  case (Step w w')
  have c: "consistent main n w" using Step.hyps(1) by (rule consistent_run)
  obtain i where "i < length (procs w)" and f: "fire e w i = Some w'"
    using Step.hyps(2) unfolding step_def by blast
  then have i: "i < n" using consistentD(1) [OF c] by simp
  show ?case using Step.IH c i f loc by (rule payloads_ok_fire)
qed

lemma pings_simps [simp]:
  "pings b 0 = []" "pings b (Suc j) = Sent b 1 0 # Received b 1 0 # pings b j"
  by (simp_all add: pings_def)

lemma pongs_simps [simp]:
  "pongs b 0 = []" "pongs b (Suc j) = Received b 0 0 # Sent b 0 0 # pongs b j"
  by (simp_all add: pongs_def)

lemma depth_le_add: "depth_le p n \<Longrightarrow> depth_le p (n + k)"
proof (induction p arbitrary: n)
  case (MPI_Send x1 x2 x3 p)
  then show ?case by (cases n) simp_all
next
  case (MPI_Recv x1 x2 f)
  then show ?case by (cases n) simp_all
next
  case (Collective x1 p)
  then show ?case by (cases n) simp_all
next
  case (Read_counter x1 f)
  then show ?case by (cases n) simp_all
next
  case (Write_counter x1 x2 p)
  then show ?case by (cases n) simp_all
next
  case (MPI_Wtime f)
  then show ?case by (cases n) simp_all
next
  case (Call x1 p)
  then show ?case by (cases n) simp_all
next
  case (Return c)
  then show ?case by simp
qed

lemma depth_le_mono: "depth_le p n \<Longrightarrow> n \<le> m \<Longrightarrow> depth_le p m"
  using depth_le_add [of p n "m - n"] by simp

lemma pingpong_loop_depth:
  assumes "\<And>buf. depth_le (rest buf) c"
  shows "depth_le (pingpong_loop r I i buf rest) (2 * (I - i) + c)"
proof (induction "I - i" arbitrary: i buf)
  case 0
  then show ?case using assms by (subst pingpong_loop.simps) simp
next
  case (Suc m)
  then have i: "i < I" "m = I - (i + 1)" by simp_all
  have s: "2 * (I - i) + c = Suc (Suc (2 * (I - (i + 1)) + c))" using i by simp
  have ih: "depth_le (pingpong_loop r I (i + 1) b rest) (2 * (I - (i + 1)) + c)" for b
    using Suc(1) [OF i(2)] .
  have ih': "depth_le (pingpong_loop r I (i + 1) b rest) (Suc (Suc (2 * (I - (i + 1)) + c)))" for b
    using ih by (rule depth_le_mono) simp
  consider "r = 0" | "r = 1" | "r \<noteq> 0" "r \<noteq> 1" by blast
  then show ?case
  proof cases
    case 1
    show ?thesis unfolding s
      by (subst pingpong_loop.simps) (use i 1 ih in simp)
  next
    case 2
    show ?thesis unfolding s
      by (subst pingpong_loop.simps) (use i 2 ih in simp)
  next
    case 3
    show ?thesis unfolding s
      by (subst pingpong_loop.simps) (use i 3 ih' in simp)
  qed
qed

lemma pingpong_report_depth: "depth_le (pingpong_report S I r t0 buf) 3"
  by (simp add: pingpong_report_def Let_def numeral_3_eq_3)

lemma pingpong_depth: "depth_le (pingpong S I r n) (2 * I + 4)"
proof -
  have l: "depth_le (pingpong_loop r' I 0 buf (pingpong_report S I r' t0)) (3 + 2 * I)"
    for buf t0 r'
    using pingpong_loop_depth [of "pingpong_report S I r' t0" 3 r' I 0 buf]
    by (simp add: pingpong_report_depth add.commute)
  have s: "2 * I + 4 = Suc (2 * I + 3)" by simp
  have "depth_le (pingpong S I r n) (Suc (2 * I + 3))"
    using l by (simp add: pingpong_def Let_def)
  then show ?thesis by (simp only: s)
qed

lemma pingpong_loop_idle:
  "2 \<le> r \<Longrightarrow> pingpong_loop r I i buf rest = rest buf"
proof (induction "I - i" arbitrary: i)
  case 0
  then show ?case by (subst pingpong_loop.simps) simp
next
  case (Suc m)
  then have "pingpong_loop r I (i + 1) buf rest = rest buf" by simp
  then show ?case using Suc.prems by (subst pingpong_loop.simps) simp
qed

lemma pingpong_loop_rank0:
  assumes "replay (pingpong_loop 0 I i z rest) tr = Some p"
    and "\<forall>x \<in> set (payloads tr). x = z"
  shows "(\<exists>j k. i + j < I \<and> tr = pings z j \<and> p = MPI_Send z 1 0 k) \<or>
    (\<exists>j f. i + j < I \<and> tr = pings z j @ [Sent z 1 0] \<and> p = MPI_Recv 1 0 f) \<or>
    (\<exists>es. tr = pings z (I - i) @ es \<and> replay (rest z) es = Some p)"
  using assms
proof (induction "I - i" arbitrary: i tr)
  case 0
  then have "pingpong_loop 0 I i z rest = rest z"
    by (subst pingpong_loop.simps) simp
  then show ?case using 0 by simp
next
  case (Suc m)
  then have i: "i < I" "m = I - (i + 1)" by simp_all
  have u: "pingpong_loop 0 I i z rest =
      MPI_Send z 1 0 (MPI_Recv 1 0 (\<lambda>buf. pingpong_loop 0 I (i + 1) buf rest))"
    using i by (subst pingpong_loop.simps) simp
  from Suc.prems(1) [unfolded u]
  consider "tr = []" "p = pingpong_loop 0 I i z rest"
    | "tr = [Sent z 1 0]" "p = MPI_Recv 1 0 (\<lambda>buf. pingpong_loop 0 I (i + 1) buf rest)"
    | b es where "tr = Sent z 1 0 # Received b 1 0 # es"
        "replay (pingpong_loop 0 I (i + 1) b rest) es = Some p"
    unfolding u by (auto simp: replay_iffs)
  then show ?case
  proof cases
    case 1
    then show ?thesis using i u by (intro disjI1 exI [of _ 0]) simp
  next
    case 2
    then show ?thesis using i by (intro disjI2 disjI1 exI [of _ 0]) simp
  next
    case 3
    then have b: "b = z" and pl: "\<forall>x \<in> set (payloads es). x = z"
      using Suc.prems(2) by simp_all
    have s: "I - i = Suc (I - (i + 1))" using i by simp
    from Suc.hyps(1) [OF i(2) 3(2) [unfolded b] pl]
    show ?thesis
    proof (elim disjE exE conjE)
      fix j k assume "i + 1 + j < I" "es = pings z j" "p = MPI_Send z 1 0 k"
      then show ?thesis using 3(1) b by (intro disjI1 exI [of _ "Suc j"]) simp
    next
      fix j f assume "i + 1 + j < I" "es = pings z j @ [Sent z 1 0]" "p = MPI_Recv 1 0 f"
      then show ?thesis using 3(1) b by (intro disjI2 disjI1 exI [of _ "Suc j"]) simp
    next
      fix es' assume "es = pings z (I - (i + 1)) @ es'" "replay (rest z) es' = Some p"
      then show ?thesis using 3(1) b s by (intro disjI2) simp
    qed
  qed
qed

lemma pingpong_loop_rank1:
  assumes "replay (pingpong_loop 1 I i z rest) tr = Some p"
    and "\<forall>x \<in> set (payloads tr). x = z"
  shows "(\<exists>j f. i + j < I \<and> tr = pongs z j \<and> p = MPI_Recv 0 0 f) \<or>
    (\<exists>j k. i + j < I \<and> tr = pongs z j @ [Received z 0 0] \<and> p = MPI_Send z 0 0 k) \<or>
    (\<exists>es. tr = pongs z (I - i) @ es \<and> replay (rest z) es = Some p)"
  using assms
proof (induction "I - i" arbitrary: i tr)
  case 0
  then have "pingpong_loop 1 I i z rest = rest z"
    by (subst pingpong_loop.simps) simp
  then show ?case using 0 by simp
next
  case (Suc m)
  then have i: "i < I" "m = I - (i + 1)" by simp_all
  have u: "pingpong_loop 1 I i z rest =
      MPI_Recv 0 0 (\<lambda>buf. MPI_Send buf 0 0 (pingpong_loop 1 I (i + 1) buf rest))"
    using i by (subst pingpong_loop.simps) simp
  from Suc.prems(1) [unfolded u]
  consider "tr = []" "p = pingpong_loop 1 I i z rest"
    | b where "tr = [Received b 0 0]" "p = MPI_Send b 0 0 (pingpong_loop 1 I (i + 1) b rest)"
    | b es where "tr = Received b 0 0 # Sent b 0 0 # es"
        "replay (pingpong_loop 1 I (i + 1) b rest) es = Some p"
    unfolding u by (auto simp: replay_iffs)
  then show ?case
  proof cases
    case 1
    then show ?thesis using i u by (intro disjI1 exI [of _ 0]) simp
  next
    case 2
    then have "b = z" using Suc.prems(2) by simp
    then show ?thesis using 2 i by (intro disjI2 disjI1 exI [of _ 0]) simp
  next
    case 3
    then have b: "b = z" and pl: "\<forall>x \<in> set (payloads es). x = z"
      using Suc.prems(2) by simp_all
    have s: "I - i = Suc (I - (i + 1))" using i by simp
    from Suc.hyps(1) [OF i(2) 3(2) [unfolded b] pl]
    show ?thesis
    proof (elim disjE exE conjE)
      fix j f assume "i + 1 + j < I" "es = pongs z j" "p = MPI_Recv 0 0 f"
      then show ?thesis using 3(1) b by (intro disjI1 exI [of _ "Suc j"]) simp
    next
      fix j k assume "i + 1 + j < I" "es = pongs z j @ [Received z 0 0]" "p = MPI_Send z 0 0 k"
      then show ?thesis using 3(1) b by (intro disjI2 disjI1 exI [of _ "Suc j"]) simp
    next
      fix es' assume "es = pongs z (I - (i + 1)) @ es'" "replay (rest z) es' = Some p"
      then show ?thesis using 3(1) b s by (intro disjI2) simp
    qed
  qed
qed

lemma pings_msgs [simp]:
  "sends d t (pings z j) = (if d = 1 \<and> t = 0 then replicate j z else [])"
  "recvs s t (pings z j) = (if s = 1 \<and> t = 0 then replicate j z else [])"
  "payloads (pings z j) = replicate (2 * j) z"
  by (induction j) auto

lemma pongs_msgs [simp]:
  "sends d t (pongs z j) = (if d = 0 \<and> t = 0 then replicate j z else [])"
  "recvs s t (pongs z j) = (if s = 0 \<and> t = 0 then replicate j z else [])"
  "payloads (pongs z j) = replicate (2 * j) z"
  by (induction j) auto

lemma pingpong_report_states:
  assumes "replay (pingpong_report S I r t0 buf) es = Some p"
  shows "(\<exists>f. p = MPI_Wtime f) \<or> (\<exists>c k. p = Call c k) \<or>
    (\<exists>t1. p = Return 0 \<and> es =
       (if r = 0 then
         [Clock t1,
          Did (Printf Stdout ''PingPong: size=%d bytes, latency=%.3f us\<newline>''
                 [AInt (of_nat S), ADouble (latency_us t0 t1 I)]),
          Did MPI_Finalize]
        else [Clock t1, Did MPI_Finalize]))"
  using assms by (auto simp: pingpong_report_def Let_def replay_iffs split: if_splits)

lemma pingpong_rank0_states:
  assumes r: "replay (pingpong S I 0 n) tr = Some p" and n: "2 \<le> n"
    and z: "\<forall>x \<in> set (payloads tr). x = replicate S 0"
  shows "(\<exists>j k t0. j < I \<and> tr = Clock t0 # pings (replicate S 0) j \<and>
            p = MPI_Send (replicate S 0) 1 0 k) \<or>
    (\<exists>j f t0. j < I \<and> tr = Clock t0 # pings (replicate S 0) j @ [Sent (replicate S 0) 1 0] \<and>
            p = MPI_Recv 1 0 f) \<or>
    (\<exists>f. p = MPI_Wtime f) \<or> (\<exists>c k. p = Call c k) \<or>
    (\<exists>t0 t1. tr = ping_history S I t0 t1 \<and> p = Return 0)"
proof -
  let ?z = "replicate S 0 :: buffer"
  from r n consider "p = pingpong S I 0 n" "tr = []"
    | t0 es where "tr = Clock t0 # es"
        "replay (pingpong_loop 0 I 0 ?z (pingpong_report S I 0 t0)) es = Some p"
    by (auto simp: pingpong_def Let_def replay_iffs)
  then show ?thesis
  proof cases
    case 1
    then show ?thesis using n by (simp add: pingpong_def Let_def)
  next
    case 2
    have "\<forall>x \<in> set (payloads es). x = ?z" using z 2(1) by simp
    from pingpong_loop_rank0 [OF 2(2) this]
    show ?thesis
    proof (elim disjE exE conjE)
      fix j k assume "0 + j < I" "es = pings ?z j" "p = MPI_Send ?z 1 0 k"
      then show ?thesis using 2(1) by auto
    next
      fix j f assume "0 + j < I" "es = pings ?z j @ [Sent ?z 1 0]" "p = MPI_Recv 1 0 f"
      then show ?thesis using 2(1) by auto
    next
      fix es' assume es: "es = pings ?z (I - 0) @ es'"
        and "replay (pingpong_report S I 0 t0 ?z) es' = Some p"
      from pingpong_report_states [OF this(2)]
      show ?thesis using es 2(1) by (auto simp: ping_history_def)
    qed
  qed
qed

lemma pingpong_rank1_states:
  assumes r: "replay (pingpong S I 1 n) tr = Some p" and n: "2 \<le> n"
    and z: "\<forall>x \<in> set (payloads tr). x = replicate S 0"
  shows "(\<exists>j f t0. j < I \<and> tr = Clock t0 # pongs (replicate S 0) j \<and> p = MPI_Recv 0 0 f) \<or>
    (\<exists>j k t0. j < I \<and> tr = Clock t0 # pongs (replicate S 0) j @ [Received (replicate S 0) 0 0] \<and>
            p = MPI_Send (replicate S 0) 0 0 k) \<or>
    (\<exists>f. p = MPI_Wtime f) \<or> (\<exists>c k. p = Call c k) \<or>
    (\<exists>t0 t1. tr = pong_history S I t0 t1 \<and> p = Return 0)"
proof -
  let ?z = "replicate S 0 :: buffer"
  from r n consider "p = pingpong S I 1 n" "tr = []"
    | t0 es where "tr = Clock t0 # es"
        "replay (pingpong_loop 1 I 0 ?z (pingpong_report S I 1 t0)) es = Some p"
    by (auto simp: pingpong_def Let_def replay_iffs)
  then show ?thesis
  proof cases
    case 1
    then show ?thesis using n by (simp add: pingpong_def Let_def)
  next
    case 2
    have "\<forall>x \<in> set (payloads es). x = ?z" using z 2(1) by simp
    from pingpong_loop_rank1 [OF 2(2) this]
    show ?thesis
    proof (elim disjE exE conjE)
      fix j f assume "0 + j < I" "es = pongs ?z j" "p = MPI_Recv 0 0 f"
      then show ?thesis using 2(1) by auto
    next
      fix j k assume "0 + j < I" "es = pongs ?z j @ [Received ?z 0 0]" "p = MPI_Send ?z 0 0 k"
      then show ?thesis using 2(1) by auto
    next
      fix es' assume es: "es = pongs ?z (I - 0) @ es'"
        and "replay (pingpong_report S I 1 t0 ?z) es' = Some p"
      from pingpong_report_states [OF this(2)]
      show ?thesis using es 2(1) by (auto simp: pong_history_def)
    qed
  qed
qed

lemma pingpong_idle_states:
  assumes r: "replay (pingpong S I r n) tr = Some p" and n: "2 \<le> n" and i: "2 \<le> r"
  shows "(\<exists>f. p = MPI_Wtime f) \<or> (\<exists>c k. p = Call c k) \<or>
    (\<exists>t0 t1. tr = [Clock t0, Clock t1, Did MPI_Finalize] \<and> p = Return 0)"
  using assms
  by (auto simp: pingpong_def pingpong_loop_idle pingpong_report_def Let_def replay_iffs)

lemma payloads_okD:
  "payloads_ok P w \<Longrightarrow> i < length (trace w) \<Longrightarrow> \<forall>x \<in> set (payloads (trace w ! i)). P x"
  unfolding payloads_ok_def by blast

lemma pingpong_payloads:
  assumes n: "2 \<le> n" and r: "run e (init (pingpong S I) n mem) w"
  shows "payloads_ok (\<lambda>x. x = replicate S 0) w"
  using r
proof (rule payloads_ok_run)
  fix i tr m d t k
  assume i: "i < n" and rp: "replay (pingpong S I i n) tr = Some (MPI_Send m d t k)"
    and z: "\<forall>x \<in> set (payloads tr). x = replicate S 0"
  consider "i = 0" | "i = 1" | "2 \<le> i" by linarith
  then show "m = replicate S 0"
  proof cases
    case 1
    then show ?thesis using pingpong_rank0_states [OF _ n z] rp by auto
  next
    case 2
    then show ?thesis using pingpong_rank1_states [OF _ n z] rp by auto
  next
    case 3
    then show ?thesis using pingpong_idle_states [OF rp n] by auto
  qed
qed

lemma ping_history_msgs [simp]:
  "sends (Suc 0) 0 (ping_history S I t0 t1) = replicate I (replicate S 0)"
  "recvs (Suc 0) 0 (ping_history S I t0 t1) = replicate I (replicate S 0)"
  by (simp_all add: ping_history_def)

lemma pong_history_msgs [simp]:
  "sends 0 0 (pong_history S I t0 t1) = replicate I (replicate S 0)"
  "recvs 0 0 (pong_history S I t0 t1) = replicate I (replicate S 0)"
  by (simp_all add: pong_history_def)

lemma pingpong_stuck0:
  assumes n: "2 \<le> n" and r: "run e (init (pingpong S I) n mem) w" and st: "stuck e w"
  shows "(\<exists>j k. j < I \<and> length (sends 1 0 (trace w ! 0)) = j \<and>
            length (recvs 1 0 (trace w ! 0)) = j \<and> procs w ! 0 = MPI_Send (replicate S 0) 1 0 k) \<or>
    (\<exists>j f. j < I \<and> length (sends 1 0 (trace w ! 0)) = Suc j \<and>
            length (recvs 1 0 (trace w ! 0)) = j \<and> procs w ! 0 = MPI_Recv 1 0 f) \<or>
    (\<exists>t0 t1. trace w ! 0 = ping_history S I t0 t1 \<and> procs w ! 0 = Return 0)"
proof -
  have c: "consistent (pingpong S I) n w" using r by (rule consistent_run)
  note D = consistentD [OF c]
  have z: "\<forall>x \<in> set (payloads (trace w ! 0)). x = replicate S 0"
    using payloads_okD [OF pingpong_payloads [OF n r], of 0] D(2) n by simp
  have 0: "0 < length (procs w)" using D(1) n by simp
  from pingpong_rank0_states [OF D(3) n z] stuck_Wtime [OF st 0] stuck_Call [OF st 0] n
  show ?thesis by auto
qed

lemma pingpong_stuck1:
  assumes n: "2 \<le> n" and r: "run e (init (pingpong S I) n mem) w" and st: "stuck e w"
  shows "(\<exists>j f. j < I \<and> length (recvs 0 0 (trace w ! 1)) = j \<and>
            length (sends 0 0 (trace w ! 1)) = j \<and> procs w ! 1 = MPI_Recv 0 0 f) \<or>
    (\<exists>j k. j < I \<and> length (recvs 0 0 (trace w ! 1)) = Suc j \<and>
            length (sends 0 0 (trace w ! 1)) = j \<and> procs w ! 1 = MPI_Send (replicate S 0) 0 0 k) \<or>
    (\<exists>t0 t1. trace w ! 1 = pong_history S I t0 t1 \<and> procs w ! 1 = Return 0)"
proof -
  have c: "consistent (pingpong S I) n w" using r by (rule consistent_run)
  note D = consistentD [OF c]
  have z: "\<forall>x \<in> set (payloads (trace w ! 1)). x = replicate S 0"
    using payloads_okD [OF pingpong_payloads [OF n r], of 1] D(2) n by simp
  have 1: "1 < length (procs w)" using D(1) n by simp
  from pingpong_rank1_states [OF D(3) n z] stuck_Wtime [OF st 1] stuck_Call [OF st 1] n
  show ?thesis by auto
qed

lemma pingpong_final01:
  assumes n: "2 \<le> n" and r: "run e (init (pingpong S I) n mem) w" and st: "stuck e w"
  shows "(\<exists>t0 t1. trace w ! 0 = ping_history S I t0 t1 \<and> procs w ! 0 = Return 0) \<and>
    (\<exists>t0 t1. trace w ! 1 = pong_history S I t0 t1 \<and> procs w ! 1 = Return 0)"
proof -
  let ?z = "replicate S 0 :: buffer"
  have c: "consistent (pingpong S I) n w" using r by (rule consistent_run)
  note D = consistentD [OF c]
  have len: "0 < length (procs w)" "1 < length (procs w)" using D(1) n by simp_all
  have "sends 1 0 (trace w ! 0) = recvs 0 0 (trace w ! 1) @ chans w (0, 1, 0)"
    using D(4) [of 0 1 0] n by simp
  then have E01: "length (sends 1 0 (trace w ! 0)) =
      length (recvs 0 0 (trace w ! 1)) + length (chans w (0, 1, 0))"
    by simp
  have "sends 0 0 (trace w ! 1) = recvs 1 0 (trace w ! 0) @ chans w (1, 0, 0)"
    using D(4) [of 1 0 0] n by simp
  then have E10: "length (sends 0 0 (trace w ! 1)) =
      length (recvs 1 0 (trace w ! 0)) + length (chans w (1, 0, 0))"
    by simp
  from pingpong_stuck0 [OF n r st] consider
      (A0) j k where "j < I" "length (sends 1 0 (trace w ! 0)) = j"
        "length (recvs 1 0 (trace w ! 0)) = j" "procs w ! 0 = MPI_Send ?z 1 0 k"
    | (B0) j f where "j < I" "length (sends 1 0 (trace w ! 0)) = Suc j"
        "length (recvs 1 0 (trace w ! 0)) = j" "procs w ! 0 = MPI_Recv 1 0 f"
    | (F0) t0 t1 where "trace w ! 0 = ping_history S I t0 t1" "procs w ! 0 = Return 0"
    by blast
  then show ?thesis
  proof cases
    case A0
    from pingpong_stuck1 [OF n r st] show ?thesis
    proof (elim disjE exE conjE)
      fix j' f assume 1: "j' < I" "length (recvs 0 0 (trace w ! 1)) = j'"
        "length (sends 0 0 (trace w ! 1)) = j'" "procs w ! 1 = MPI_Recv 0 0 f"
      have "chans w (0, 1, 0) = []" using stuck_Recv [OF st len(2) 1(4)] .
      then show ?thesis using stuck_Send [OF st len(1) A0(4) len(2), of f] 1(4) by simp
    next
      fix j' k' assume 1: "j' < I" "length (recvs 0 0 (trace w ! 1)) = Suc j'"
        "length (sends 0 0 (trace w ! 1)) = j'"
      then show ?thesis using A0 E01 E10 by simp
    next
      fix t0 t1 assume "trace w ! 1 = pong_history S I t0 t1"
      then show ?thesis using A0 E01 by simp
    qed
  next
    case B0
    have e10: "chans w (1, 0, 0) = []" using stuck_Recv [OF st len(1) B0(4)] .
    from pingpong_stuck1 [OF n r st] show ?thesis
    proof (elim disjE exE conjE)
      fix j' f assume 1: "j' < I" "length (recvs 0 0 (trace w ! 1)) = j'"
        "length (sends 0 0 (trace w ! 1)) = j'" "procs w ! 1 = MPI_Recv 0 0 f"
      have "chans w (0, 1, 0) = []" using stuck_Recv [OF st len(2) 1(4)] .
      then show ?thesis using B0 1 E01 E10 e10 by simp
    next
      fix j' k' assume 1: "j' < I" "length (recvs 0 0 (trace w ! 1)) = Suc j'"
        "length (sends 0 0 (trace w ! 1)) = j'" "procs w ! 1 = MPI_Send ?z 0 0 k'"
      show ?thesis using stuck_Send [OF st len(2) 1(4) len(1) e10, of f] B0(4) by simp
    next
      fix t0 t1 assume "trace w ! 1 = pong_history S I t0 t1"
      then show ?thesis using B0 E10 e10 by simp
    qed
  next
    case F0
    from pingpong_stuck1 [OF n r st] show ?thesis
    proof (elim disjE exE conjE)
      fix j' f assume 1: "j' < I" "length (recvs 0 0 (trace w ! 1)) = j'"
        "length (sends 0 0 (trace w ! 1)) = j'" "procs w ! 1 = MPI_Recv 0 0 f"
      have "chans w (0, 1, 0) = []" using stuck_Recv [OF st len(2) 1(4)] .
      then show ?thesis using F0 1 E01 by simp
    next
      fix j' k' assume 1: "j' < I" "length (recvs 0 0 (trace w ! 1)) = Suc j'"
        "length (sends 0 0 (trace w ! 1)) = j'"
      then show ?thesis using F0 E10 by simp
    next
      fix t0 t1 assume "trace w ! 1 = pong_history S I t0 t1" "procs w ! 1 = Return 0"
      then show ?thesis using F0 by blast
    qed
  qed
qed

lemma pingpong_final_idle:
  assumes n: "2 \<le> n" and r: "run e (init (pingpong S I) n mem) w" and st: "stuck e w"
    and i: "2 \<le> i" "i < n"
  shows "\<exists>t0 t1. trace w ! i = [Clock t0, Clock t1, Did MPI_Finalize] \<and> procs w ! i = Return 0"
proof -
  have c: "consistent (pingpong S I) n w" using r by (rule consistent_run)
  note D = consistentD [OF c]
  have len: "i < length (procs w)" using D(1) i by simp
  from pingpong_idle_states [OF D(3) [OF i(2)] n i(1)] stuck_Wtime [OF st len] stuck_Call [OF st len]
  show ?thesis by auto
qed

lemma clocks_simps [simp]:
  "clocks [] = []"
  "clocks (tr @ tr') = clocks tr @ clocks tr'"
  "clocks (ev # tr) = clock_of ev @ clocks tr"
  by (simp_all add: clocks_def)

lemma clock_ok_advance:
  assumes "clock_ok e w" "clock_of ev = []"
  shows "clock_ok e (advance i p ev w)"
proof -
  have "\<exists>ks. clocks (trace (advance i p ev w) ! j) = map (clk e) ks \<and>
        sorted_wrt (<) ks \<and> (\<forall>k \<in> set ks. k < ticks (advance i p ev w))"
    if j: "j < length (trace w)" for j
  proof -
    have "clocks (trace (advance i p ev w) ! j) = clocks (trace w ! j)"
      using j assms(2) by (cases "j = i") (simp_all add: advance_def)
    then show ?thesis using assms(1) j unfolding clock_ok_def by simp
  qed
  then show ?thesis unfolding clock_ok_def by simp
qed

lemma clock_ok_wtime:
  assumes "clock_ok e w"
  shows "clock_ok e (advance i p (Clock (clk e (ticks w))) (w\<lparr>ticks := Suc (ticks w)\<rparr>))"
    (is "clock_ok e ?w'")
proof -
  have "\<exists>ks. clocks (trace ?w' ! j) = map (clk e) ks \<and>
        sorted_wrt (<) ks \<and> (\<forall>k \<in> set ks. k < ticks ?w')"
    if j: "j < length (trace w)" for j
  proof -
    obtain ks where ks: "clocks (trace w ! j) = map (clk e) ks" "sorted_wrt (<) ks"
      "\<forall>k \<in> set ks. k < ticks w"
      using assms j unfolding clock_ok_def by blast
    show ?thesis
    proof (cases "j = i")
      case True
      have "clocks (trace ?w' ! j) = map (clk e) (ks @ [ticks w])"
        using True j ks(1) by (simp add: advance_def)
      moreover have "sorted_wrt (<) (ks @ [ticks w])"
        using ks(2,3) by (simp add: sorted_wrt_append)
      moreover have "\<forall>k \<in> set (ks @ [ticks w]). k < ticks ?w'"
        using ks(3) by auto
      ultimately show ?thesis by blast
    next
      case False
      have "clocks (trace ?w' ! j) = map (clk e) ks"
        using False j ks(1) by (simp add: advance_def)
      moreover have "\<forall>k \<in> set ks. k < ticks ?w'"
        using ks(3) by auto
      ultimately show ?thesis using ks(2) by blast
    qed
  qed
  then show ?thesis unfolding clock_ok_def by simp
qed

lemma clock_ok_cong:
  "clock_ok e w \<Longrightarrow> trace w' = trace w \<Longrightarrow> ticks w' = ticks w \<Longrightarrow> clock_ok e w'"
  by (simp add: clock_ok_def)

lemma clock_ok_fire:
  assumes ok: "clock_ok e w" and f: "fire e w i = Some w'"
  shows "clock_ok e w'"
  using f
proof (cases rule: fire_cases)
  case (Send_buf m d t k)
  have "clock_ok e (w\<lparr>chans := (chans w)((i, d, t) := chans w (i, d, t) @ [m])\<rparr>)"
    using ok by (rule clock_ok_cong) simp_all
  then show ?thesis unfolding Send_buf(4) by (rule clock_ok_advance) simp
next
  case (Send_sync m d t k f)
  show ?thesis unfolding Send_sync(6)
    by (intro clock_ok_advance ok) simp_all
next
  case (Recv s t f m ms)
  have "clock_ok e (w\<lparr>chans := (chans w)((s, i, t) := ms)\<rparr>)"
    using ok by (rule clock_ok_cong) simp_all
  then show ?thesis unfolding Recv(3) by (rule clock_ok_advance) simp
next
  case (Coll c' k)
  show ?thesis using ok unfolding Coll(3) clock_ok_def by simp
next
  case (Read a f)
  show ?thesis unfolding Read(2) using ok by (rule clock_ok_advance) simp
next
  case (Write a v k)
  have "clock_ok e (w\<lparr>counter := v\<rparr>)"
    using ok by (rule clock_ok_cong) simp_all
  then show ?thesis unfolding Write(2) by (rule clock_ok_advance) simp
next
  case (Wtime f)
  show ?thesis unfolding Wtime(2) using ok by (rule clock_ok_wtime)
next
  case (Call c' k)
  show ?thesis unfolding Call(2) using ok by (rule clock_ok_advance) simp
qed

lemma clock_ok_run:
  assumes "run e (init main n mem) w"
  shows "clock_ok e w"
  using assms
proof (induction rule: run_induct)
  case Init
  show ?case by (simp add: clock_ok_def init_def)
next
  case (Step w w')
  then show ?case unfolding step_def using clock_ok_fire by blast
qed

lemma clock_pair:
  assumes "clock_ok e w" "i < length (trace w)" "clocks (trace w ! i) = [t0, t1]"
  shows "\<exists>a b. a < b \<and> t0 = clk e a \<and> t1 = clk e b"
proof -
  obtain ks where ks: "clocks (trace w ! i) = map (clk e) ks" "sorted_wrt (<) ks"
    using assms(1,2) unfolding clock_ok_def by blast
  then obtain a b where "ks = [a, b]" using assms(3)
    by (cases ks; cases "tl ks") auto
  then show ?thesis using ks assms(3) by auto
qed

lemma pings_clocks [simp]: "clocks (pings z j) = []"
  by (induction j) auto

lemma pongs_clocks [simp]: "clocks (pongs z j) = []"
  by (induction j) auto

lemma pingpong_rank0_final:
  assumes n: "2 \<le> n" and r: "run e (init (pingpong S I) n mem) w" and st: "stuck e w"
  shows "\<exists>a b. a < b \<and> trace w ! 0 = ping_history S I (clk e a) (clk e b)"
proof -
  have c: "consistent (pingpong S I) n w" using r by (rule consistent_run)
  obtain t0 t1 where t: "trace w ! 0 = ping_history S I t0 t1"
    using pingpong_final01 [OF n r st] by blast
  then have "clocks (trace w ! 0) = [t0, t1]" by (simp add: ping_history_def)
  then obtain a b where "a < b" "t0 = clk e a" "t1 = clk e b"
    using clock_pair [OF clock_ok_run [OF r], of 0 t0 t1] consistentD(2) [OF c] n by auto
  then show ?thesis using t by blast
qed

lemma pingpong_final_procs:
  assumes n: "2 \<le> n" and r: "run e (init (pingpong S I) n mem) w" and st: "stuck e w"
  shows "procs w = replicate n (Return 0)"
proof (rule nth_equalityI)
  have c: "consistent (pingpong S I) n w" using r by (rule consistent_run)
  show "length (procs w) = length (replicate n (Return 0 :: buffer proc))"
    using consistentD(1) [OF c] by simp
  fix i assume "i < length (procs w)"
  then have i: "i < n" using consistentD(1) [OF c] by simp
  consider "i = 0" | "i = 1" | "2 \<le> i" by linarith
  then have "procs w ! i = Return 0"
  proof cases
    case 1
    then show ?thesis using pingpong_final01 [OF n r st] by blast
  next
    case 2
    then show ?thesis using pingpong_final01 [OF n r st] by blast
  next
    case 3
    then show ?thesis using pingpong_final_idle [OF n r st 3 i] by blast
  qed
  then show "procs w ! i = replicate n (Return 0) ! i" using i by simp
qed

lemma latency_us_pos: "0 < I \<Longrightarrow> 0 < latency_us t0 t1 I \<longleftrightarrow> t0 < t1"
  by (simp add: latency_us_def Let_def zero_less_mult_iff zero_less_divide_iff)

lemma latency_us_nonneg: "t0 \<le> t1 \<Longrightarrow> 0 \<le> latency_us t0 t1 I"
  by (simp add: latency_us_def Let_def)

lemma pingpong_single_states:
  assumes "replay (pingpong S I 0 1) tr = Some p"
  shows "(\<exists>c k. p = Call c k) \<or>
    (p = Return 1 \<and> tr = [Did (Printf Stderr ''Need at least 2 ranks.\<newline>'' []), Did MPI_Finalize])"
  using assms by (auto simp: pingpong_def Let_def replay_iffs)

lemma pingpong_single_quiet:
  assumes "replay (pingpong S I 0 1) tr = Some p"
  shows "payloads tr = []"
  using assms by (auto simp: pingpong_def Let_def replay_iffs)

text  \<open>
  C2. Insufficient-rank guard: launched with world size 1, the ping-pong program always
  ends, its only rank returns exit code 1, and all it has done is print the diagnostic
  ``Need at least 2 ranks.'' on standard error and finalize: at no moment of any
  execution has it sent or received a message.
\<close>

theorem pingpong_single_rank:
  "terminates e (init pingpong_main 1 mem) \<and>
   (\<forall>w. run e (init pingpong_main 1 mem) w \<longrightarrow>
      payloads (trace w ! 0) = [] \<and>
      (stuck e w \<longrightarrow>
         procs w = [Return 1] \<and>
         trace w = [[Did (Printf Stderr ''Need at least 2 ranks.\<newline>'' []), Did MPI_Finalize]]))"
proof (intro conjI allI impI)
  show "terminates e (init pingpong_main 1 mem)"
    unfolding pingpong_main_def by (rule terminates_init) (rule pingpong_depth)
next
  fix w assume r: "run e (init pingpong_main 1 mem) w"
  then have c: "consistent (pingpong MSG_SIZE 10000) 1 w"
    unfolding pingpong_main_def by (rule consistent_run)
  note D = consistentD [OF c]
  show "payloads (trace w ! 0) = []"
    using pingpong_single_quiet [OF D(3) [of 0]] by simp
  assume st: "stuck e w"
  have "procs w ! 0 = Return 1 \<and>
      trace w ! 0 = [Did (Printf Stderr ''Need at least 2 ranks.\<newline>'' []), Did MPI_Finalize]"
    using pingpong_single_states [OF D(3) [of 0]] stuck_Call [OF st, of 0] D(1) by auto
  then show "procs w = [Return 1]"
    and "trace w = [[Did (Printf Stderr ''Need at least 2 ranks.\<newline>'' []), Did MPI_Finalize]]"
    using D(1,2) by (auto simp: length_Suc_conv)
qed

theorem pingpong_single_rank_witness:
  "terminates env0 (init pingpong_main 1 0) \<and>
   run env0 (init pingpong_main 1 0) (exec 5 env0 (init pingpong_main 1 0)) \<and>
   stuck env0 (exec 5 env0 (init pingpong_main 1 0)) \<and>
   payloads (trace (exec 5 env0 (init pingpong_main 1 0)) ! 0) = [] \<and>
   procs (exec 5 env0 (init pingpong_main 1 0)) = [Return 1] \<and>
   trace (exec 5 env0 (init pingpong_main 1 0)) =
     [[Did (Printf Stderr ''Need at least 2 ranks.\<newline>'' []), Did MPI_Finalize]]"
proof -
  have r: "run env0 (init pingpong_main 1 0) (exec 5 env0 (init pingpong_main 1 0))"
    by (rule run_exec)
  have s: "stuck env0 (exec 5 env0 (init pingpong_main 1 0))"
    by code_simp
  show ?thesis
    using pingpong_single_rank [of env0 0] r s by simp
qed

lemma pingpong_idle_quiet:
  assumes "replay (pingpong S I r n) tr = Some p" "2 \<le> n" "2 \<le> r"
  shows "payloads tr = []"
  using assms
  by (auto simp: pingpong_def pingpong_loop_idle pingpong_report_def Let_def replay_iffs)

text  \<open>
  C10. In the ping-pong program with world size \<open>n \<ge> 3\<close>, a rank other than 0 and 1
  never sends or receives a message (the loop body is empty for it), and every execution
  ends with that rank returned with exit code 0, having read the clock twice and
  finalized.
\<close>

theorem pingpong_idle_ranks:
  assumes "3 \<le> n"
  shows "terminates e (init pingpong_main n mem) \<and>
   (\<forall>w. run e (init pingpong_main n mem) w \<longrightarrow>
      (\<forall>r. 2 \<le> r \<and> r < n \<longrightarrow>
         payloads (trace w ! r) = [] \<and>
         (stuck e w \<longrightarrow>
            procs w ! r = Return 0 \<and>
            (\<exists>t0 t1. trace w ! r = [Clock t0, Clock t1, Did MPI_Finalize]))))"
proof (intro conjI allI impI)
  show "terminates e (init pingpong_main n mem)"
    unfolding pingpong_main_def by (rule terminates_init) (rule pingpong_depth)
next
  fix w r assume r: "run e (init pingpong_main n mem) w" and i: "2 \<le> r \<and> r < n"
  have n: "2 \<le> n" using assms by simp
  have r': "run e (init (pingpong MSG_SIZE 10000) n mem) w"
    using r by (simp add: pingpong_main_def)
  note D = consistentD [OF consistent_run [OF r']]
  show "payloads (trace w ! r) = []"
    using pingpong_idle_quiet [OF D(3) n] i by simp
  assume st: "stuck e w"
  show "procs w ! r = Return 0" and "\<exists>t0 t1. trace w ! r = [Clock t0, Clock t1, Did MPI_Finalize]"
    using pingpong_final_idle [OF n r' st, of r] i by auto
qed

theorem pingpong_idle_ranks_witness:
  "3 \<le> (3::nat) \<and> terminates env0 (init pingpong_main 3 0) \<and>
   (\<exists>w. run env0 (init pingpong_main 3 0) w \<and> stuck env0 w \<and>
      payloads (trace w ! 2) = [] \<and> procs w ! 2 = Return 0 \<and>
      (\<exists>t0 t1. trace w ! 2 = [Clock t0, Clock t1, Did MPI_Finalize]))"
proof -
  note t = pingpong_idle_ranks [of 3 env0 0]
  have "terminates env0 (init pingpong_main 3 0)" using t by simp
  then obtain w where "run env0 (init pingpong_main 3 0) w" "stuck env0 w"
    using terminates_ends by blast
  then show ?thesis using t by auto
qed

text  \<open>
  C5. The ping-pong benchmark runs the fixed count of 10000 iterations: on rank 0 the
  complete history is one clock reading, 10000 times a send and a receive of the 8-byte
  buffer, a second (later) clock reading directly after the last receive, and the report.
  The latency reported is the elapsed time between the two readings divided by
  \<open>2 * 10000\<close>, printed in microseconds (seconds times \<open>10\<^sup>6\<close>).
\<close>

theorem pingpong_latency_formula:
  assumes "2 \<le> n"
  shows "terminates e (init pingpong_main n mem) \<and>
   (\<forall>w. run e (init pingpong_main n mem) w \<and> stuck e w \<longrightarrow>
      (\<exists>a b latency. a < b \<and>
         trace w ! 0 =
           Clock (clk e a) #
           concat (replicate 10000 [Sent (replicate 8 0) 1 0, Received (replicate 8 0) 1 0]) @
           [Clock (clk e b),
            Did (Printf Stdout ''PingPong: size=%d bytes, latency=%.3f us\<newline>''
                   [AInt 8, ADouble latency]),
            Did MPI_Finalize] \<and>
         latency = ((clk e b - clk e a) / (2 * 10000)) * 1000000))"
proof (intro conjI allI impI)
  show "terminates e (init pingpong_main n mem)"
    unfolding pingpong_main_def by (rule terminates_init) (rule pingpong_depth)
next
  fix w assume "run e (init pingpong_main n mem) w \<and> stuck e w"
  then have r: "run e (init (pingpong MSG_SIZE 10000) n mem) w" and st: "stuck e w"
    by (simp_all add: pingpong_main_def)
  obtain a b where "a < b" "trace w ! 0 = ping_history MSG_SIZE 10000 (clk e a) (clk e b)"
    using pingpong_rank0_final [OF assms r st] by blast
  then show "\<exists>a b latency. a < b \<and>
         trace w ! 0 =
           Clock (clk e a) #
           concat (replicate 10000 [Sent (replicate 8 0) 1 0, Received (replicate 8 0) 1 0]) @
           [Clock (clk e b),
            Did (Printf Stdout ''PingPong: size=%d bytes, latency=%.3f us\<newline>''
                   [AInt 8, ADouble latency]),
            Did MPI_Finalize] \<and>
         latency = ((clk e b - clk e a) / (2 * 10000)) * 1000000"
    by (intro exI [of _ a] exI [of _ b])
      (simp add: ping_history_def pings_def MSG_SIZE_def latency_us_def Let_def)
qed

theorem pingpong_latency_formula_witness:
  "2 \<le> (2::nat) \<and> terminates env0 (init pingpong_main 2 0) \<and>
   (\<exists>w. run env0 (init pingpong_main 2 0) w \<and> stuck env0 w \<and>
      (\<exists>a b latency. a < b \<and>
         trace w ! 0 =
           Clock (clk env0 a) #
           concat (replicate 10000 [Sent (replicate 8 0) 1 0, Received (replicate 8 0) 1 0]) @
           [Clock (clk env0 b),
            Did (Printf Stdout ''PingPong: size=%d bytes, latency=%.3f us\<newline>''
                   [AInt 8, ADouble latency]),
            Did MPI_Finalize] \<and>
         latency = ((clk env0 b - clk env0 a) / (2 * 10000)) * 1000000))"
proof -
  note t = pingpong_latency_formula [of 2 env0 0]
  have "terminates env0 (init pingpong_main 2 0)" using t by simp
  then obtain w where "run env0 (init pingpong_main 2 0) w" "stuck env0 w"
    using terminates_ends by blast
  then show ?thesis using t by blast
qed

text  \<open>
  C4 (amended). For all buffer sizes \<open>S\<close> and iteration counts \<open>I \<ge> 1\<close> (and world
  size at least 2), every ping-pong run completes, and in a completed run every message sent and
  received, on rank 0 and on rank 1, is the zero-filled buffer of \<open>S\<close> bytes that was
  sent first. The latency reported is computed from two successive clock readings
  \<open>t0\<close> and \<open>t1\<close>: it is not negative when the clock did not run backwards, and it is
  strictly greater than 0 exactly when \<open>t1\<close> is later than \<open>t0\<close>.
  The statement is for \<open>I \<ge> 1\<close> only: with \<open>I = 0\<close> the C program divides by 0.0
  and reports an infinity or a NaN, which \<open>latency_us\<close> does not represent.
\<close>

theorem pingpong_buffer_latency:
  assumes "2 \<le> n" and "0 < I"
  shows "terminates e (init (pingpong S I) n mem) \<and>
   (\<forall>w. run e (init (pingpong S I) n mem) w \<and> stuck e w \<longrightarrow>
      (\<exists>a b t0 t1. a < b \<and> t0 = clk e a \<and> t1 = clk e b \<and>
         trace w ! 0 =
           Clock t0 #
           concat (replicate I [Sent (replicate S 0) 1 0, Received (replicate S 0) 1 0]) @
           [Clock t1,
            Did (Printf Stdout ''PingPong: size=%d bytes, latency=%.3f us\<newline>''
                   [AInt (of_nat S), ADouble (latency_us t0 t1 I)]),
            Did MPI_Finalize] \<and>
         (t0 \<le> t1 \<longrightarrow> 0 \<le> latency_us t0 t1 I) \<and>
         (0 < latency_us t0 t1 I \<longleftrightarrow> t0 < t1)) \<and>
      (\<exists>t0 t1. trace w ! 1 =
           Clock t0 #
           concat (replicate I [Received (replicate S 0) 0 0, Sent (replicate S 0) 0 0]) @
           [Clock t1, Did MPI_Finalize]))"
proof (intro conjI allI impI)
  show "terminates e (init (pingpong S I) n mem)"
    by (rule terminates_init) (rule pingpong_depth)
next
  fix w assume "run e (init (pingpong S I) n mem) w \<and> stuck e w"
  then have r: "run e (init (pingpong S I) n mem) w" and st: "stuck e w"
    by simp_all
  obtain a b where ab: "a < b" "trace w ! 0 = ping_history S I (clk e a) (clk e b)"
    using pingpong_rank0_final [OF assms(1) r st] by blast
  show "\<exists>a b t0 t1. a < b \<and> t0 = clk e a \<and> t1 = clk e b \<and>
         trace w ! 0 =
           Clock t0 #
           concat (replicate I [Sent (replicate S 0) 1 0, Received (replicate S 0) 1 0]) @
           [Clock t1,
            Did (Printf Stdout ''PingPong: size=%d bytes, latency=%.3f us\<newline>''
                   [AInt (of_nat S), ADouble (latency_us t0 t1 I)]),
            Did MPI_Finalize] \<and>
         (t0 \<le> t1 \<longrightarrow> 0 \<le> latency_us t0 t1 I) \<and>
         (0 < latency_us t0 t1 I \<longleftrightarrow> t0 < t1)"
    using ab assms(2)
    by (intro exI [of _ a] exI [of _ b] exI [of _ "clk e a"] exI [of _ "clk e b"])
      (simp add: ping_history_def pings_def latency_us_pos latency_us_nonneg)
  show "\<exists>t0 t1. trace w ! 1 =
           Clock t0 #
           concat (replicate I [Received (replicate S 0) 0 0, Sent (replicate S 0) 0 0]) @
           [Clock t1, Did MPI_Finalize]"
    using pingpong_final01 [OF assms(1) r st] by (auto simp: pong_history_def pongs_def)
qed

theorem pingpong_buffer_latency_witness:
  "2 \<le> (3::nat) \<and> 0 < (3::nat) \<and> terminates env1 (init (pingpong 2 3) 3 0) \<and>
   run env1 (init (pingpong 2 3) 3 0) (exec 40 env1 (init (pingpong 2 3) 3 0)) \<and>
   stuck env1 (exec 40 env1 (init (pingpong 2 3) 3 0)) \<and>
   trace (exec 40 env1 (init (pingpong 2 3) 3 0)) ! 0 =
     [Clock 0, Sent [0, 0] 1 0, Received [0, 0] 1 0, Sent [0, 0] 1 0, Received [0, 0] 1 0,
      Sent [0, 0] 1 0, Received [0, 0] 1 0, Clock 2,
      Did (Printf Stdout ''PingPong: size=%d bytes, latency=%.3f us\<newline>''
             [AInt 2, ADouble (latency_us 0 2 3)]),
      Did MPI_Finalize] \<and>
   0 < latency_us 0 2 3"
proof -
  have t: "terminates env1 (init (pingpong 2 3) 3 0)"
    using pingpong_buffer_latency [where n = 3 and I = 3 and e = env1 and S = 2 and mem = 0]
    by simp
  have r: "run env1 (init (pingpong 2 3) 3 0) (exec 40 env1 (init (pingpong 2 3) 3 0))"
    by (rule run_exec)
  have s: "stuck env1 (exec 40 env1 (init (pingpong 2 3) 3 0))"
    by code_simp
  have h: "trace (exec 40 env1 (init (pingpong 2 3) 3 0)) ! 0 =
     [Clock 0, Sent [0, 0] 1 0, Received [0, 0] 1 0, Sent [0, 0] 1 0, Received [0, 0] 1 0,
      Sent [0, 0] 1 0, Received [0, 0] 1 0, Clock 2,
      Did (Printf Stdout ''PingPong: size=%d bytes, latency=%.3f us\<newline>''
             [AInt 2, ADouble (latency_us 0 2 3)]),
      Did MPI_Finalize]"
    by code_simp
  have "0 < latency_us 0 2 3" by (simp add: latency_us_pos)
  then show ?thesis using t r s h by simp
qed

text  \<open>
  C4 as stated fails when the clock does not advance between the two readings: a
  completed run with one iteration of a 1-byte buffer, under a clock that reads 0 both
  times, reports the latency 0, which is not greater than 0.
\<close>

theorem pingpong_latency_zero:
  "run frozen (init (pingpong 1 1) 2 0) (exec 20 frozen (init (pingpong 1 1) 2 0)) \<and>
   stuck frozen (exec 20 frozen (init (pingpong 1 1) 2 0)) \<and>
   procs (exec 20 frozen (init (pingpong 1 1) 2 0)) = [Return 0, Return 0] \<and>
   trace (exec 20 frozen (init (pingpong 1 1) 2 0)) ! 0 =
     [Clock 0, Sent [0] 1 0, Received [0] 1 0, Clock 0,
      Did (Printf Stdout ''PingPong: size=%d bytes, latency=%.3f us\<newline>''
             [AInt 1, ADouble 0]),
      Did MPI_Finalize] \<and>
   \<not> (0::real) < 0"
proof -
  have r: "run frozen (init (pingpong 1 1) 2 0) (exec 20 frozen (init (pingpong 1 1) 2 0))"
    by (rule run_exec)
  have s: "stuck frozen (exec 20 frozen (init (pingpong 1 1) 2 0))"
    by code_simp
  have p: "procs (exec 20 frozen (init (pingpong 1 1) 2 0)) = [Return 0, Return 0]"
    using pingpong_final_procs [OF _ r s] by (simp add: numeral_2_eq_2)
  have h: "trace (exec 20 frozen (init (pingpong 1 1) 2 0)) ! 0 =
     [Clock 0, Sent [0] 1 0, Received [0] 1 0, Clock 0,
      Did (Printf Stdout ''PingPong: size=%d bytes, latency=%.3f us\<newline>''
             [AInt 1, ADouble 0]),
      Did MPI_Finalize]"
    by code_simp
  show ?thesis using r s p h by simp
qed

section \<open>The deadlock demonstration: proofs\<close>

lemma deadlock_depth: "depth_le (deadlock_main i n) 10"
  by (simp add: deadlock_main_def Let_def eval_nat_numeral)

lemma deadlock_recv_after_send:
  assumes "replay (deadlock_main i 2) tr = Some (MPI_Recv s t f)"
  shows "payloads tr \<noteq> []"
  using assms by (auto simp: deadlock_main_def Let_def replay_iffs split: if_splits)

lemma deadlock_states:
  assumes "replay (deadlock_main i 2) tr = Some p" "payloads tr = []" "i < 2"
  shows "set tr \<subseteq> set (attempting i) \<and>
    ((\<exists>c k. p = Call c k) \<or> (\<exists>k. p = MPI_Send 42 (1 - i) 0 k \<and> tr = attempting i))"
  using assms
  by (auto simp: deadlock_main_def attempting_def Let_def replay_iffs split: if_splits)

lemma payloads_advance:
  "j < length (trace w) \<Longrightarrow>
   payloads (trace (advance i p ev w) ! j) =
     (if j = i then payloads (trace w ! j) @ payload ev else payloads (trace w ! j))"
  by (simp add: advance_def)

lemma deadlock_quiet:
  assumes cap: "cap e = 0" and r: "run e (init deadlock_main 2 mem) w"
  shows "\<forall>i<2. payloads (trace w ! i) = []"
  using r
proof (induction rule: run_induct)
  case Init
  show ?case by (simp add: init_def less_2_cases_iff)
next
  case (Step w w')
  note D = consistentD [OF consistent_run [OF Step.hyps(1)]]
  have norecv: "procs w ! j \<noteq> MPI_Recv s t f" if "j < 2" for j s t f
    using deadlock_recv_after_send [of j "trace w ! j" s t f] D(3) [OF that] Step.IH that
    by auto
  obtain i where i: "i < 2" and f: "fire e w i = Some w'"
    using Step.hyps(2) D(1) unfolding step_def by auto
  from f show ?case
  proof (cases rule: fire_cases)
    case (Send_buf m d t k)
    then show ?thesis using cap by simp
  next
    case (Send_sync m d t k f)
    then show ?thesis using norecv [of d] D(1) by simp
  next
    case (Recv s t f m ms)
    then show ?thesis using norecv [OF i] by simp
  next
    case (Coll c' k)
    then show ?thesis using Step.IH D(2) by simp
  next
    case (Read a f)
    then show ?thesis using Step.IH D(2) by (simp add: payloads_advance)
  next
    case (Write a v k)
    then show ?thesis using Step.IH D(2) by (simp add: payloads_advance)
  next
    case (Wtime f)
    then show ?thesis using Step.IH D(2) by (simp add: payloads_advance)
  next
    case (Call c' k)
    then show ?thesis using Step.IH D(2) by (simp add: payloads_advance)
  qed
qed

text  \<open>
  C6. Deadlock: with exactly two ranks and channels without buffering capacity, the
  two blocking sends of the deadlock program never complete. In every reachable state
  neither rank has sent or received anything, printed its final line, finalized or
  returned: all a rank ever does is print its two announcements. Every execution comes
  to a halt (no call of any rank can complete), and it halts with both ranks pending
  in \<open>MPI_Send\<close> to each other: the program hangs, it does not exit.
\<close>

theorem deadlock_blocks:
  assumes "cap e = 0"
  shows "terminates e (init deadlock_main 2 mem) \<and>
   (\<forall>w. run e (init deadlock_main 2 mem) w \<longrightarrow>
      (\<forall>i. i < 2 \<longrightarrow>
         payloads (trace w ! i) = [] \<and>
         exit_code (procs w ! i) = None \<and>
         Did MPI_Finalize \<notin> set (trace w ! i) \<and>
         Did (Printf Stdout ''Process %d: Finalizing (this will never execute)\<newline>''
                [AInt (of_nat i)]) \<notin> set (trace w ! i)) \<and>
      (stuck e w \<longrightarrow>
         (\<exists>k. procs w ! 0 = MPI_Send 42 1 0 k) \<and> (\<exists>k. procs w ! 1 = MPI_Send 42 0 0 k)))"
proof (intro conjI allI impI)
  show "terminates e (init deadlock_main 2 mem)"
    by (rule terminates_init) (rule deadlock_depth)
next
  fix w assume r: "run e (init deadlock_main 2 mem) w"
  note D = consistentD [OF consistent_run [OF r]]
  note q = deadlock_quiet [OF assms r]
  have s: "set (trace w ! i) \<subseteq> set (attempting i) \<and>
      ((\<exists>c k. procs w ! i = Call c k) \<or>
       (\<exists>k. procs w ! i = MPI_Send 42 (1 - i) 0 k \<and> trace w ! i = attempting i))"
    if "i < 2" for i
    using deadlock_states [OF D(3) [OF that] _ that] q that by simp
  {
    fix i :: nat assume i: "i < 2"
    show "payloads (trace w ! i) = []" using q i by simp
    show "exit_code (procs w ! i) = None" using s [OF i] by auto
    show "Did MPI_Finalize \<notin> set (trace w ! i)"
      using s [OF i] by (auto simp: attempting_def)
    show "Did (Printf Stdout ''Process %d: Finalizing (this will never execute)\<newline>''
                [AInt (of_nat i)]) \<notin> set (trace w ! i)"
      using s [OF i] by (auto simp: attempting_def)
  }
  assume st: "stuck e w"
  show "\<exists>k. procs w ! 0 = MPI_Send 42 1 0 k"
    using s [of 0] stuck_Call [OF st, of 0] D(1) by auto
  show "\<exists>k. procs w ! 1 = MPI_Send 42 0 0 k"
    using s [of 1] stuck_Call [OF st, of 1] D(1) by auto
qed

theorem deadlock_blocks_witness:
  "cap env0 = 0 \<and> terminates env0 (init deadlock_main 2 0) \<and>
   run env0 (init deadlock_main 2 0) (exec 40 env0 (init deadlock_main 2 0)) \<and>
   stuck env0 (exec 40 env0 (init deadlock_main 2 0)) \<and>
   map exit_code (procs (exec 40 env0 (init deadlock_main 2 0))) = [None, None] \<and>
   trace (exec 40 env0 (init deadlock_main 2 0)) = [attempting 0, attempting 1] \<and>
   (\<exists>k. procs (exec 40 env0 (init deadlock_main 2 0)) ! 0 = MPI_Send 42 1 0 k) \<and>
   (\<exists>k. procs (exec 40 env0 (init deadlock_main 2 0)) ! 1 = MPI_Send 42 0 0 k)"
proof -
  have c: "cap env0 = 0" by (simp add: env0_def)
  have r: "run env0 (init deadlock_main 2 0) (exec 40 env0 (init deadlock_main 2 0))"
    by (rule run_exec)
  have s: "stuck env0 (exec 40 env0 (init deadlock_main 2 0))"
    by code_simp
  have x: "map exit_code (procs (exec 40 env0 (init deadlock_main 2 0))) = [None, None]"
    by code_simp
  have t: "trace (exec 40 env0 (init deadlock_main 2 0)) = [attempting 0, attempting 1]"
    by code_simp
  show ?thesis
    using deadlock_blocks [OF c, of 0] c r s x t by simp
qed

lemma deadlock_with_buffering:
  "run env1 (init deadlock_main 2 0) (exec 40 env1 (init deadlock_main 2 0)) \<and>
   stuck env1 (exec 40 env1 (init deadlock_main 2 0)) \<and>
   map exit_code (procs (exec 40 env1 (init deadlock_main 2 0))) = [Some 0, Some 0]"
proof -
  have "stuck env1 (exec 40 env1 (init deadlock_main 2 0))" by code_simp
  moreover have "map exit_code (procs (exec 40 env1 (init deadlock_main 2 0))) = [Some 0, Some 0]"
    by code_simp
  ultimately show ?thesis using run_exec by blast
qed

section \<open>The race-condition demonstration: proofs\<close>

lemma race_head_unfold:
  "race_head K r n i =
     (if i < K then Collective MPI_Win_fence (race_get K r n i) else race_after K r n)"
  unfolding race_head_def
  by (subst race_loop.simps)
    (simp add: race_get_def race_sleep_def race_put_def race_report_def race_head_def Let_def)

lemma race_unfold:
  "race K r n = (if r = 0 then Write_counter Pointer 0 (race_create K r n) else race_create K r n)"
  by (simp add: race_def race_create_def race_start_def race_head_def race_after_def
      race_cleanup_def Let_def)

lemma race_invI:
  "length (procs w) = n \<Longrightarrow> (\<And>r. r < n \<Longrightarrow> local_ok K n ph r (procs w ! r)) \<Longrightarrow>
   counter_ok K ph w \<Longrightarrow> race_inv K n w"
  unfolding race_inv_def by blast

lemma race_inv_init: "0 < n \<Longrightarrow> race_inv K n (init (race K) n mem)"
  by (rule race_invI [where ph = Init]) (auto simp: init_def race_unfold race_create_def)

lemma procs_coll:
  "r < length (procs w) \<Longrightarrow>
   procs (w\<lparr>procs := map after_coll (procs w), trace := tr\<rparr>) ! r = after_coll (procs w ! r)"
  by simp

lemma race_step_Init:
  assumes len: "length (procs w) = n" and n: "0 < n"
    and loc: "\<And>r. r < n \<Longrightarrow> local_ok K n Init r (procs w ! r)"
    and cnt: "counter_ok K Init w" and i: "i < n" and f: "fire e w i = Some w'"
  shows "race_inv K n w'"
  using f
proof (cases rule: fire_cases)
  case (Coll c k)
  have all: "procs w ! r = race_create K r n" if "r < n" for r
    using loc [OF that] list_all_at_coll [OF Coll(2), of r] that len by auto
  have c0: "counter w = 0" using cnt all [OF n] by (simp add: race_create_def)
  show ?thesis
  proof (rule race_invI [where ph = Created])
    show "length (procs w') = n" using len Coll(3) by simp
    show "local_ok K n Created r (procs w' ! r)" if "r < n" for r
      using all [OF that] that len Coll(3) by (simp add: race_create_def)
    show "counter_ok K Created w'" using c0 Coll(3) by simp
  qed
next
  case (Write a v k)
  then have i0: "i = 0" "v = 0" "k = race_create K 0 n"
    using loc [OF i] by (auto simp: race_create_def)
  show ?thesis
  proof (rule race_invI [where ph = Init])
    show "length (procs w') = n" using len Write(2) by simp
    show "local_ok K n Init r (procs w' ! r)" if "r < n" for r
      using loc [OF that] that len Write(2) i0 by (auto simp: procs_advance)
    show "counter_ok K Init w'" using Write(2) i0 by simp
  qed
qed (use loc [OF i] in \<open>auto simp: race_create_def\<close>)

lemma race_step_Created:
  assumes len: "length (procs w) = n" and n: "0 < n"
    and loc: "\<And>r. r < n \<Longrightarrow> local_ok K n Created r (procs w ! r)"
    and cnt: "counter_ok K Created w" and i: "i < n" and f: "fire e w i = Some w'"
  shows "race_inv K n w'"
  using f
proof (cases rule: fire_cases)
  case (Coll c k)
  show ?thesis
  proof (rule race_invI [where ph = "Between 0"])
    show "length (procs w') = n" using len Coll(3) by simp
    show "local_ok K n (Between 0) r (procs w' ! r)" if "r < n" for r
      using loc [OF that] that len Coll(3) by (simp add: race_start_def)
    show "counter_ok K (Between 0) w'" using cnt Coll(3) by simp
  qed
qed (use loc [OF i] in auto)

lemma race_step_Between:
  assumes len: "length (procs w) = n" and n: "0 < n"
    and loc: "\<And>r. r < n \<Longrightarrow> local_ok K n (Between j) r (procs w ! r)"
    and cnt: "counter_ok K (Between j) w" and i: "i < n" and f: "fire e w i = Some w'"
  shows "race_inv K n w'"
  using f
proof (cases rule: fire_cases)
  case (Coll c k)
  have all: "procs w ! r = race_head K r n j" if "r < n" for r
    using loc [OF that] list_all_at_coll [OF Coll(2), of r] that len by auto
  show ?thesis
  proof (cases "j < K")
    case True
    show ?thesis
    proof (rule race_invI [where ph = "Reading j"])
      show "length (procs w') = n" using len Coll(3) by simp
      show "local_ok K n (Reading j) r (procs w' ! r)" if "r < n" for r
        using all [OF that] that len Coll(3) True by (simp add: race_head_unfold)
      show "counter_ok K (Reading j) w'" using cnt Coll(3) True by simp
    qed
  next
    case False
    then have jK: "j = K" using cnt by simp
    show ?thesis
    proof (rule race_invI [where ph = Checking])
      show "length (procs w') = n" using len Coll(3) by simp
      show "local_ok K n Checking r (procs w' ! r)" if "r < n" for r
      proof -
        have "procs w' ! r = race_check K r n race_cleanup"
          using all [OF that] that len Coll(3) False by (simp add: race_head_unfold race_after_def)
        then have "replay (race_check K r n race_cleanup) [] = Some (procs w' ! r)" by simp
        then show ?thesis unfolding local_ok.simps by (intro exI [of _ "[]"]) simp
      qed
      show "counter_ok K Checking w'" using cnt Coll(3) jK by simp
    qed
  qed
next
  case (Call c k)
  then have k: "k = race_head K i n j"
    using loc [OF i] by (auto simp: race_head_unfold race_after_def split: if_splits)
  show ?thesis
  proof (rule race_invI [where ph = "Between j"])
    show "length (procs w') = n" using len Call(2) by simp
    show "local_ok K n (Between j) r (procs w' ! r)" if "r < n" for r
      using loc [OF that] that len Call(2) k by (auto simp: procs_advance)
    show "counter_ok K (Between j) w'" using cnt Call(2) by simp
  qed
qed (use loc [OF i] in \<open>auto simp: race_head_unfold race_after_def split: if_splits\<close>)

lemma race_step_Reading:
  assumes len: "length (procs w) = n" and n: "0 < n"
    and loc: "\<And>r. r < n \<Longrightarrow> local_ok K n (Reading j) r (procs w ! r)"
    and cnt: "counter_ok K (Reading j) w" and i: "i < n" and f: "fire e w i = Some w'"
  shows "race_inv K n w'"
  using f
proof (cases rule: fire_cases)
  case (Coll c k)
  have all: "procs w ! r = Collective MPI_Win_fence (race_sleep K r n j (of_nat j))"
    if "r < n" for r
    using loc [OF that] list_all_at_coll [OF Coll(2), of r] that len
    by (auto simp: race_get_def)
  show ?thesis
  proof (rule race_invI [where ph = "Sleeping j"])
    show "length (procs w') = n" using len Coll(3) by simp
    show "local_ok K n (Sleeping j) r (procs w' ! r)" if "r < n" for r
      using all [OF that] that len Coll(3) by simp
    show "counter_ok K (Sleeping j) w'" using cnt Coll(3) by simp
  qed
next
  case (Read a g)
  then have g: "g (counter w) = Collective MPI_Win_fence (race_sleep K i n j (of_nat j))"
    using loc [OF i] cnt by (auto simp: race_get_def)
  show ?thesis
  proof (rule race_invI [where ph = "Reading j"])
    show "length (procs w') = n" using len Read(2) by simp
    show "local_ok K n (Reading j) r (procs w' ! r)" if "r < n" for r
      using loc [OF that] that len Read(2) g by (auto simp: procs_advance)
    show "counter_ok K (Reading j) w'" using cnt Read(2) by simp
  qed
qed (use loc [OF i] in \<open>auto simp: race_get_def\<close>)

lemma race_step_Sleeping:
  assumes len: "length (procs w) = n" and n: "0 < n"
    and loc: "\<And>r. r < n \<Longrightarrow> local_ok K n (Sleeping j) r (procs w ! r)"
    and cnt: "counter_ok K (Sleeping j) w" and i: "i < n" and f: "fire e w i = Some w'"
  shows "race_inv K n w'"
  using f
proof (cases rule: fire_cases)
  case (Coll c k)
  have all: "procs w ! r = Collective MPI_Win_fence (race_put K r n j (of_nat j + 1))"
    if "r < n" for r
    using loc [OF that] list_all_at_coll [OF Coll(2), of r] that len
    by (auto simp: race_sleep_def)
  show ?thesis
  proof (rule race_invI [where ph = "Writing j"])
    show "length (procs w') = n" using len Coll(3) by simp
    show "local_ok K n (Writing j) r (procs w' ! r)" if "r < n" for r
      using all [OF that] that len Coll(3) by simp
    have "\<not> list_ex (at_coll MPI_Win_fence) (procs w')"
      using all len Coll(3) by (auto simp: list_ex_length race_put_def)
    then show "counter_ok K (Writing j) w'" using cnt Coll(3) by simp
  qed
next
  case (Call c k)
  then have k: "k = Collective MPI_Win_fence (race_put K i n j (of_nat j + 1))"
    using loc [OF i] by (auto simp: race_sleep_def)
  show ?thesis
  proof (rule race_invI [where ph = "Sleeping j"])
    show "length (procs w') = n" using len Call(2) by simp
    show "local_ok K n (Sleeping j) r (procs w' ! r)" if "r < n" for r
      using loc [OF that] that len Call(2) k by (auto simp: procs_advance)
    show "counter_ok K (Sleeping j) w'" using cnt Call(2) by simp
  qed
qed (use loc [OF i] in \<open>auto simp: race_sleep_def\<close>)

lemma race_step_Writing:
  assumes len: "length (procs w) = n" and n: "0 < n"
    and loc: "\<And>r. r < n \<Longrightarrow> local_ok K n (Writing j) r (procs w ! r)"
    and cnt: "counter_ok K (Writing j) w" and i: "i < n" and f: "fire e w i = Some w'"
  shows "race_inv K n w'"
  using f
proof (cases rule: fire_cases)
  case (Coll c k)
  have all: "procs w ! r = Collective MPI_Win_fence (race_report K r n j)"
    if "r < n" for r
    using loc [OF that] list_all_at_coll [OF Coll(2), of r] that len
    by (auto simp: race_put_def)
  have "list_ex (at_coll MPI_Win_fence) (procs w)"
    using all [OF n] n len by (auto simp: list_ex_length)
  then have c: "counter w = of_nat (Suc j)" using cnt by simp
  show ?thesis
  proof (rule race_invI [where ph = "Between (Suc j)"])
    show "length (procs w') = n" using len Coll(3) by simp
    show "local_ok K n (Between (Suc j)) r (procs w' ! r)" if "r < n" for r
      using all [OF that] that len Coll(3) by (simp add: race_report_def)
    show "counter_ok K (Between (Suc j)) w'" using cnt c Coll(3) by simp
  qed
next
  case (Write a v k)
  then have k: "k = Collective MPI_Win_fence (race_report K i n j)" "v = of_nat j + 1"
    using loc [OF i] by (auto simp: race_put_def)
  show ?thesis
  proof (rule race_invI [where ph = "Writing j"])
    show "length (procs w') = n" using len Write(2) by simp
    show "local_ok K n (Writing j) r (procs w' ! r)" if "r < n" for r
      using loc [OF that] that len Write(2) k by (auto simp: procs_advance)
    have "at_coll MPI_Win_fence (procs w' ! i)"
      using i len Write(2) k by (simp add: procs_advance)
    then have "list_ex (at_coll MPI_Win_fence) (procs w')"
      using i len Write(2) by (auto simp: list_ex_length)
    then show "counter_ok K (Writing j) w'" using cnt Write(2) k by simp
  qed
qed (use loc [OF i] in \<open>auto simp: race_put_def\<close>)

lemma race_check_coll:
  assumes "replay (race_check K r n race_cleanup) es = Some (Collective c k)" "syncs es = []"
  shows "c = MPI_Win_free \<and> k = Call MPI_Finalize (Return 0)"
  using assms
  by (auto simp: race_check_def race_cleanup_def Let_def replay_iffs split: if_splits)

lemma race_check_local:
  assumes "replay (race_check K r n race_cleanup) es = Some p"
  shows "(\<exists>c k. p = Collective c k) \<or> (\<exists>f. p = Read_counter Pointer f) \<or>
    (\<exists>c k. p = Call c k) \<or> p = Return 0"
  using assms
  by (auto simp: race_check_def race_cleanup_def Let_def replay_iffs split: if_splits)

lemma race_step_Checking:
  assumes len: "length (procs w) = n" and n: "0 < n"
    and loc: "\<And>r. r < n \<Longrightarrow> local_ok K n Checking r (procs w ! r)"
    and cnt: "counter_ok K Checking w" and i: "i < n" and f: "fire e w i = Some w'"
  shows "race_inv K n w'"
proof -
  obtain es where es: "replay (race_check K i n race_cleanup) es = Some (procs w ! i)"
      "syncs es = []"
    using loc [OF i] by auto
  have step: "race_inv K n (advance i p ev w)"
    if rp: "replay (procs w ! i) [ev] = Some p" and sy: "synced ev = []" for p ev
  proof (rule race_invI [where ph = Checking])
    show "length (procs (advance i p ev w)) = n" using len by simp
    show "local_ok K n Checking r (procs (advance i p ev w) ! r)" if r: "r < n" for r
    proof (cases "r = i")
      case True
      have "replay (race_check K i n race_cleanup) (es @ [ev]) = Some p"
        using es(1) rp by (rule replay_snoc)
      moreover have "syncs (es @ [ev]) = []" using es(2) sy by simp
      ultimately show ?thesis using True r len
        unfolding local_ok.simps by (auto simp: procs_advance)
    next
      case False
      then show ?thesis using loc [OF r] r len by (simp add: procs_advance)
    qed
    show "counter_ok K Checking (advance i p ev w)" using cnt by simp
  qed
  from f show ?thesis
  proof (cases rule: fire_cases)
    case (Coll c k)
    have all: "procs w ! r = race_cleanup" if r: "r < n" for r
    proof -
      obtain k' where k': "procs w ! r = Collective c k'"
        using list_all_at_coll [OF Coll(2), of r] r len by auto
      obtain es' where "replay (race_check K r n race_cleanup) es' = Some (procs w ! r)"
        "syncs es' = []"
        using loc [OF r] by auto
      then show ?thesis using race_check_coll [of K r n es' c k'] k'
        by (simp add: race_cleanup_def)
    qed
    show ?thesis
    proof (rule race_invI [where ph = Freed])
      show "length (procs w') = n" using len Coll(3) by simp
      show "local_ok K n Freed r (procs w' ! r)" if "r < n" for r
        using all [OF that] that len Coll(3) by (simp add: race_cleanup_def)
      show "counter_ok K Freed w'" using cnt Coll(3) by simp
    qed
  next
    case (Read a g)
    show ?thesis unfolding Read(2) using Read(1) by (intro step) simp_all
  next
    case (Call c k)
    show ?thesis unfolding Call(2) using Call(1) by (intro step) simp_all
  qed (use race_check_local [OF es(1)] in auto)
qed

lemma race_step_Freed:
  assumes len: "length (procs w) = n" and n: "0 < n"
    and loc: "\<And>r. r < n \<Longrightarrow> local_ok K n Freed r (procs w ! r)"
    and cnt: "counter_ok K Freed w" and i: "i < n" and f: "fire e w i = Some w'"
  shows "race_inv K n w'"
  using f
proof (cases rule: fire_cases)
  case (Call c k)
  then have k: "k = Return 0" using loc [OF i] by auto
  show ?thesis
  proof (rule race_invI [where ph = Freed])
    show "length (procs w') = n" using len Call(2) by simp
    show "local_ok K n Freed r (procs w' ! r)" if "r < n" for r
      using loc [OF that] that len Call(2) k by (auto simp: procs_advance)
    show "counter_ok K Freed w'" using cnt Call(2) by simp
  qed
qed (use loc [OF i] in auto)

lemma race_inv_fire:
  assumes inv: "race_inv K n w" and n: "0 < n" and i: "i < n" and f: "fire e w i = Some w'"
  shows "race_inv K n w'"
proof -
  obtain ph where len: "length (procs w) = n"
    and loc: "\<And>r. r < n \<Longrightarrow> local_ok K n ph r (procs w ! r)"
    and cnt: "counter_ok K ph w"
    using inv unfolding race_inv_def by blast
  show ?thesis
  proof (cases ph)
    case Init
    have l: "\<And>r. r < n \<Longrightarrow> local_ok K n Init r (procs w ! r)"
      using loc Init by simp
    have c: "counter_ok K Init w" using cnt Init by simp
    show ?thesis by (rule race_step_Init [OF len n l c i f])
  next
    case Created
    have l: "\<And>r. r < n \<Longrightarrow> local_ok K n Created r (procs w ! r)"
      using loc Created by simp
    have c: "counter_ok K Created w" using cnt Created by simp
    show ?thesis by (rule race_step_Created [OF len n l c i f])
  next
    case (Between j)
    have l: "\<And>r. r < n \<Longrightarrow> local_ok K n (Between j) r (procs w ! r)"
      using loc Between by simp
    have c: "counter_ok K (Between j) w" using cnt Between by simp
    show ?thesis by (rule race_step_Between [OF len n l c i f])
  next
    case (Reading j)
    have l: "\<And>r. r < n \<Longrightarrow> local_ok K n (Reading j) r (procs w ! r)"
      using loc Reading by simp
    have c: "counter_ok K (Reading j) w" using cnt Reading by simp
    show ?thesis by (rule race_step_Reading [OF len n l c i f])
  next
    case (Sleeping j)
    have l: "\<And>r. r < n \<Longrightarrow> local_ok K n (Sleeping j) r (procs w ! r)"
      using loc Sleeping by simp
    have c: "counter_ok K (Sleeping j) w" using cnt Sleeping by simp
    show ?thesis by (rule race_step_Sleeping [OF len n l c i f])
  next
    case (Writing j)
    have l: "\<And>r. r < n \<Longrightarrow> local_ok K n (Writing j) r (procs w ! r)"
      using loc Writing by simp
    have c: "counter_ok K (Writing j) w" using cnt Writing by simp
    show ?thesis by (rule race_step_Writing [OF len n l c i f])
  next
    case Checking
    have l: "\<And>r. r < n \<Longrightarrow> local_ok K n Checking r (procs w ! r)"
      using loc Checking by simp
    have c: "counter_ok K Checking w" using cnt Checking by simp
    show ?thesis by (rule race_step_Checking [OF len n l c i f])
  next
    case Freed
    have l: "\<And>r. r < n \<Longrightarrow> local_ok K n Freed r (procs w ! r)"
      using loc Freed by simp
    have c: "counter_ok K Freed w" using cnt Freed by simp
    show ?thesis by (rule race_step_Freed [OF len n l c i f])
  qed
qed

lemma race_inv_run:
  assumes "run e (init (race K) n mem) w" "0 < n"
  shows "race_inv K n w"
  using assms(1)
proof (induction rule: run_induct)
  case Init
  show ?case using assms(2) by (rule race_inv_init)
next
  case (Step w w')
  obtain i where "i < length (procs w)" and f: "fire e w i = Some w'"
    using Step.hyps(2) unfolding step_def by blast
  moreover have "length (procs w) = n" using Step.IH by (simp add: race_inv_def)
  ultimately show ?case using race_inv_fire [OF Step.IH assms(2) _ f] by simp
qed

lemma race_check_waiting:
  assumes "replay (race_check K r n race_cleanup) es = Some p" "syncs es = []"
  shows "p = race_cleanup \<or> (\<exists>f. p = Read_counter Pointer f) \<or> (\<exists>c k. p = Call c k)"
  using assms
  by (auto simp: race_check_def race_cleanup_def Let_def replay_iffs split: if_splits)

lemma stuck_all_coll:
  assumes st: "stuck e w" and n: "0 < length (procs w)"
    and all: "\<And>r. r < length (procs w) \<Longrightarrow> \<exists>k. procs w ! r = Collective c k"
  shows False
proof -
  have "at_coll c (procs w ! r)" if "r < length (procs w)" for r
    using all [OF that] by auto
  then have "list_all (at_coll c) (procs w)"
    by (simp add: list_all_length)
  moreover obtain k where "procs w ! 0 = Collective c k" using all [OF n] by blast
  ultimately show False using stuck_Collective [OF st n] by blast
qed

lemma race_stuck:
  assumes inv: "race_inv K n w" and n: "0 < n" and st: "stuck e w"
  shows "(\<forall>r<n. procs w ! r = Return 0) \<and> counter w = of_nat K"
proof -
  obtain ph where len: "length (procs w) = n"
    and loc: "\<And>r. r < n \<Longrightarrow> local_ok K n ph r (procs w ! r)"
    and cnt: "counter_ok K ph w"
    using inv unfolding race_inv_def by blast
  have n': "0 < length (procs w)" using n len by simp
  note no = stuck_Call [OF st] stuck_Read [OF st] stuck_Write [OF st]
  show ?thesis
  proof (cases ph)
    case Init
    have "\<exists>k. procs w ! r = Collective MPI_Win_create k" if "r < length (procs w)" for r
      using loc [of r] that len Init no(3) [OF that] by (auto simp: race_create_def)
    then show ?thesis using stuck_all_coll [OF st n'] by blast
  next
    case Created
    have "\<exists>k. procs w ! r = Collective MPI_Barrier k" if "r < length (procs w)" for r
      using loc [of r] that len Created by auto
    then show ?thesis using stuck_all_coll [OF st n'] by blast
  next
    case (Between j)
    have "\<exists>k. procs w ! r =
        Collective (if j < K then MPI_Win_fence else MPI_Barrier) k"
      if "r < length (procs w)" for r
      using loc [of r] that len Between no(1) [OF that]
      by (auto simp: race_head_unfold race_after_def)
    then show ?thesis using stuck_all_coll [OF st n'] by blast
  next
    case (Reading j)
    have "\<exists>k. procs w ! r = Collective MPI_Win_fence k" if "r < length (procs w)" for r
      using loc [of r] that len Reading no(2) [OF that] by (auto simp: race_get_def)
    then show ?thesis using stuck_all_coll [OF st n'] by blast
  next
    case (Sleeping j)
    have "\<exists>k. procs w ! r = Collective MPI_Win_fence k" if "r < length (procs w)" for r
      using loc [of r] that len Sleeping no(1) [OF that] by (auto simp: race_sleep_def)
    then show ?thesis using stuck_all_coll [OF st n'] by blast
  next
    case (Writing j)
    have "\<exists>k. procs w ! r = Collective MPI_Win_fence k" if "r < length (procs w)" for r
      using loc [of r] that len Writing no(3) [OF that] by (auto simp: race_put_def)
    then show ?thesis using stuck_all_coll [OF st n'] by blast
  next
    case Checking
    have "\<exists>k. procs w ! r = Collective MPI_Win_free k" if r: "r < length (procs w)" for r
    proof -
      obtain es where "replay (race_check K r n race_cleanup) es = Some (procs w ! r)"
        "syncs es = []"
        using loc [of r] r len Checking by auto
      from race_check_waiting [OF this] show ?thesis
        using no(1) [OF r] no(2) [OF r] by (auto simp: race_cleanup_def)
    qed
    then show ?thesis using stuck_all_coll [OF st n'] by blast
  next
    case Freed
    have "procs w ! r = Return 0" if "r < n" for r
      using loc [OF that] that len Freed no(1) [of r] by auto
    then show ?thesis using cnt Freed by simp
  qed
qed

lemma race_loop_depth:
  assumes "depth_le rest c"
  shows "depth_le (race_loop K r n i rest) (8 * (K - i) + c)"
proof (induction "K - i" arbitrary: i)
  case 0
  then show ?case using assms by (subst race_loop.simps) simp
next
  case (Suc m)
  then have i: "i < K" "m = K - (i + 1)" by simp_all
  have s: "8 * (K - i) + c = Suc (Suc (Suc (Suc (Suc (Suc (Suc (Suc (8 * (K - (i + 1)) + c))))))))"
    using i by simp
  have ih: "depth_le (race_loop K r n (i + 1) rest) (8 * (K - (i + 1)) + c)"
    using Suc(1) [OF i(2)] .
  have ih': "depth_le (race_loop K r n (i + 1) rest) (Suc (8 * (K - (i + 1)) + c))"
    using ih by (rule depth_le_mono) simp
  show ?case unfolding s
    by (subst race_loop.simps) (use i ih ih' in \<open>auto simp: Let_def\<close>)
qed

lemma race_depth: "depth_le (race K r n) (8 * K + 12)"
proof -
  have c: "depth_le (Collective MPI_Barrier (race_check K r n
      (Collective MPI_Win_free (Call MPI_Finalize (Return 0))))) 8"
    by (simp add: race_check_def Let_def eval_nat_numeral)
  have l: "depth_le (race_loop K r n 0 (Collective MPI_Barrier (race_check K r n
      (Collective MPI_Win_free (Call MPI_Finalize (Return 0)))))) (8 * (K - 0) + 8)"
    using c by (rule race_loop_depth)
  have l8: "depth_le (race_loop K r n 0 (Collective MPI_Barrier (race_check K r n
      (Collective MPI_Win_free (Call MPI_Finalize (Return 0)))))) (8 + 8 * K)"
    using l by (simp add: add.commute)
  have l9: "depth_le (race_loop K r n 0 (Collective MPI_Barrier (race_check K r n
      (Collective MPI_Win_free (Call MPI_Finalize (Return 0)))))) (9 + 8 * K)"
    using l8 by (rule depth_le_mono) simp
  have s: "8 * K + 12 = Suc (Suc (Suc (Suc (8 * K + 8))))" by simp
  show ?thesis unfolding s using l8 l9 by (auto simp: race_def Let_def)
qed

lemma ptr_ok_advance:
  assumes "ptr_ok K w" "\<And>v. ev = Read_ev Pointer v \<Longrightarrow> v = of_nat K"
  shows "ptr_ok K (advance i p ev w)"
proof -
  have "v = of_nat K"
    if j: "j < length (trace w)" and v: "Read_ev Pointer v \<in> set (trace (advance i p ev w) ! j)"
    for j v
  proof (cases "j = i")
    case True
    then have "Read_ev Pointer v \<in> set (trace w ! j) \<or> ev = Read_ev Pointer v"
      using j v by (auto simp: advance_def)
    then show ?thesis using assms j unfolding ptr_ok_def by blast
  next
    case False
    then have "Read_ev Pointer v \<in> set (trace w ! j)"
      using j v by (simp add: advance_def)
    then show ?thesis using assms(1) j unfolding ptr_ok_def by blast
  qed
  then show ?thesis unfolding ptr_ok_def by simp
qed

lemma ptr_ok_cong: "ptr_ok K w \<Longrightarrow> trace w' = trace w \<Longrightarrow> ptr_ok K w'"
  by (simp add: ptr_ok_def)

lemma race_ptr_read:
  assumes inv: "race_inv K n w" and i: "i < n" and p: "procs w ! i = Read_counter Pointer f"
  shows "counter w = of_nat K"
proof -
  obtain ph where loc: "local_ok K n ph i (procs w ! i)" and cnt: "counter_ok K ph w"
    using inv i unfolding race_inv_def by blast
  show ?thesis
    using loc cnt p
    by (cases ph)
      (auto simp: race_create_def race_head_unfold race_after_def race_get_def race_sleep_def
        race_put_def split: if_splits)
qed

lemma ptr_ok_fire:
  assumes ok: "ptr_ok K w" and inv: "race_inv K n w" and i: "i < n"
    and f: "fire e w i = Some w'"
  shows "ptr_ok K w'"
  using f
proof (cases rule: fire_cases)
  case (Send_buf m d t k)
  have "ptr_ok K (w\<lparr>chans := (chans w)((i, d, t) := chans w (i, d, t) @ [m])\<rparr>)"
    using ok by (rule ptr_ok_cong) simp
  then show ?thesis unfolding Send_buf(4) by (rule ptr_ok_advance) simp
next
  case (Send_sync m d t k f)
  show ?thesis unfolding Send_sync(6) by (intro ptr_ok_advance ok) simp_all
next
  case (Recv s t f m ms)
  have "ptr_ok K (w\<lparr>chans := (chans w)((s, i, t) := ms)\<rparr>)"
    using ok by (rule ptr_ok_cong) simp
  then show ?thesis unfolding Recv(3) by (rule ptr_ok_advance) simp
next
  case (Coll c k)
  show ?thesis using ok unfolding Coll(3) ptr_ok_def by auto
next
  case (Read a g)
  show ?thesis unfolding Read(2) using ok
  proof (rule ptr_ok_advance)
    fix v assume "Read_ev a (counter w) = Read_ev Pointer v"
    then show "v = of_nat K" using race_ptr_read [OF inv i] Read(1) by simp
  qed
next
  case (Write a v k)
  have "ptr_ok K (w\<lparr>counter := v\<rparr>)" using ok by (rule ptr_ok_cong) simp
  then show ?thesis unfolding Write(2) by (rule ptr_ok_advance) simp
next
  case (Wtime g)
  have "ptr_ok K (w\<lparr>ticks := Suc (ticks w)\<rparr>)" using ok by (rule ptr_ok_cong) simp
  then show ?thesis unfolding Wtime(2) by (rule ptr_ok_advance) simp
next
  case (Call c k)
  show ?thesis unfolding Call(2) using ok by (rule ptr_ok_advance) simp
qed

lemma ptr_ok_run:
  assumes "run e (init (race K) n mem) w" "0 < n"
  shows "ptr_ok K w"
  using assms(1)
proof (induction rule: run_induct)
  case Init
  show ?case by (simp add: ptr_ok_def init_def)
next
  case (Step w w')
  have inv: "race_inv K n w" using Step.hyps(1) assms(2) by (rule race_inv_run)
  obtain i where "i < length (procs w)" and f: "fire e w i = Some w'"
    using Step.hyps(2) unfolding step_def by blast
  then have "i < n" using inv by (simp add: race_inv_def)
  then show ?case using ptr_ok_fire [OF Step.IH inv _ f] by simp
qed

lemma replay_Collective_Return:
  "replay (Collective x k) tr = Some (Return c) \<Longrightarrow>
   \<exists>es. tr = Synced x # es \<and> replay k es = Some (Return c)"
  by (simp add: replay_Collective)

lemma replay_Read_Return:
  "replay (Read_counter a f) tr = Some (Return c) \<Longrightarrow>
   \<exists>v es. tr = Read_ev a v # es \<and> replay (f v) es = Some (Return c)"
  by (simp add: replay_Read)

lemma replay_Write_Return:
  "replay (Write_counter a v k) tr = Some (Return c) \<Longrightarrow>
   \<exists>es. tr = Wrote a v # es \<and> replay k es = Some (Return c)"
  by (simp add: replay_Write)

lemma replay_Call_Return:
  "replay (Call x k) tr = Some (Return c) \<Longrightarrow>
   \<exists>es. tr = Did x # es \<and> replay k es = Some (Return c)"
  by (simp add: replay_Call)

lemma replay_Return_Return:
  "replay (Return x) tr = Some (Return c) \<Longrightarrow> tr = [] \<and> c = x"
  by (simp add: replay_Return)

lemma replay_optional_call:
  assumes "replay (if b then Call d k else k) es = Some (Return c)"
  shows "\<exists>es'. suffix es' es \<and> replay k es' = Some (Return c)"
proof (cases b)
  case True
  with assms have "replay (Call d k) es = Some (Return c)" by (simp only: if_True)
  from replay_Call_Return [OF this] obtain e where e: "es = Did d # e" "replay k e = Some (Return c)"
    by blast
  have "suffix e es" unfolding e(1) by (intro suffix_ConsI suffix_order.refl)
  then show ?thesis using e(2) by (intro exI [of _ e] conjI)
next
  case False
  with assms have "replay k es = Some (Return c)" by (simp only: if_False)
  then show ?thesis by (intro exI [of _ es] conjI suffix_order.refl)
qed

lemma race_iteration_returns:
  assumes i: "i < K" and tr: "replay (race_head K r n i) tr = Some (Return c)"
  shows "\<exists>es. suffix es tr \<and> replay (race_head K r n (i + 1)) es = Some (Return c)"
proof -
  let ?f = "Synced MPI_Win_fence"
  have "replay (Collective MPI_Win_fence (race_get K r n i)) tr = Some (Return c)"
    using tr i by (simp only: race_head_unfold [of K r n i] if_True)
  from replay_Collective_Return [OF this]
  obtain e1 where e1: "tr = ?f # e1" "replay (race_get K r n i) e1 = Some (Return c)"
    by blast
  from replay_Read_Return [OF e1(2) [unfolded race_get_def]]
  obtain v e2 where e2: "e1 = Read_ev Window v # e2"
    "replay (Collective MPI_Win_fence (race_sleep K r n i v)) e2 = Some (Return c)"
    by blast
  from replay_Collective_Return [OF e2(2)]
  obtain e3 where e3: "e2 = ?f # e3" "replay (race_sleep K r n i v) e3 = Some (Return c)"
    by blast
  from replay_Call_Return [OF e3(2) [unfolded race_sleep_def]]
  obtain e4 where e4: "e3 = Did (Usleep 1) # e4"
    "replay (Collective MPI_Win_fence (race_put K r n i (v + 1))) e4 = Some (Return c)"
    by blast
  from replay_Collective_Return [OF e4(2)]
  obtain e5 where e5: "e4 = ?f # e5"
    "replay (race_put K r n i (v + 1)) e5 = Some (Return c)"
    by blast
  from replay_Write_Return [OF e5(2) [unfolded race_put_def]]
  obtain e6 where e6: "e5 = Wrote Window (v + 1) # e6"
    "replay (Collective MPI_Win_fence (race_report K r n i)) e6 = Some (Return c)"
    by blast
  from replay_Collective_Return [OF e6(2)]
  obtain e7 where e7: "e6 = ?f # e7" "replay (race_report K r n i) e7 = Some (Return c)"
    by blast
  have s: "suffix e7 tr"
    unfolding e1(1) e2(1) e3(1) e4(1) e5(1) e6(1) e7(1) by (intro suffix_ConsI suffix_order.refl)
  from replay_optional_call [OF e7(2) [unfolded race_report_def]]
  obtain e8 where e8: "suffix e8 e7" "replay (race_head K r n (i + 1)) e8 = Some (Return c)"
    by blast
  have "suffix e8 tr" by (rule suffix_order.trans [OF e8(1) s])
  then show ?thesis using e8(2) by (intro exI [of _ e8] conjI)
qed

lemma race_head_returns:
  "replay (race_head K r n i) tr = Some (Return c) \<Longrightarrow>
   \<exists>es. suffix es tr \<and> replay (race_after K r n) es = Some (Return c)"
proof (induction "K - i" arbitrary: i tr)
  case 0
  from "0.hyps" have "\<not> i < K" by simp
  then have "replay (race_after K r n) tr = Some (Return c)"
    using "0.prems" by (simp only: race_head_unfold [of K r n i] if_False)
  then show ?case by (intro exI [of _ tr] conjI suffix_order.refl)
next
  case (Suc m)
  from Suc.hyps(2) have i: "i < K" "m = K - (i + 1)" by simp_all
  from race_iteration_returns [OF i(1) Suc.prems]
  obtain es where es: "suffix es tr" "replay (race_head K r n (i + 1)) es = Some (Return c)"
    by blast
  from Suc.hyps(1) [OF i(2) es(2)] obtain es' where
    es': "suffix es' es" "replay (race_after K r n) es' = Some (Return c)" by blast
  have "suffix es' tr" by (rule suffix_order.trans [OF es'(1) es(1)])
  then show ?case using es'(2) by (intro exI [of _ es'] conjI)
qed

lemma race_after_returns:
  assumes es: "replay (race_after K 0 n) es = Some (Return c)"
    and ok: "\<And>v. Read_ev Pointer v \<in> set es \<Longrightarrow> v = of_nat K"
  shows "es = race_tail K n"
proof -
  let ?x = "of_nat K * of_nat n :: cint"
  from replay_Collective_Return [OF es [unfolded race_after_def]]
  obtain e1 where e1: "es = Synced MPI_Barrier # e1"
    "replay (race_check K 0 n race_cleanup) e1 = Some (Return c)"
    by blast
  have chk: "race_check K 0 n race_cleanup =
      Read_counter Pointer (\<lambda>shared_counter.
        Call (Printf Stdout ''Final counter value: %d (expected: %d)\<newline>''
                [AInt shared_counter, AInt ?x])
       (Read_counter Pointer (\<lambda>shared_counter.
        if shared_counter \<noteq> ?x then
          Read_counter Pointer (\<lambda>shared_counter.
          Call (Printf Stdout ''RACE CONDITION DETECTED! Lost updates: %d\<newline>''
                  [AInt (?x - shared_counter)])
          race_cleanup)
        else
          Call (Printf Stdout ''No race detected in this run (but race still exists!)\<newline>'' [])
          race_cleanup)))"
    by (simp only: race_check_def Let_def if_True refl)
  from replay_Read_Return [OF e1(2) [unfolded chk]]
  obtain c1 e2 where e2: "e1 = Read_ev Pointer c1 # e2"
    "replay (Call (Printf Stdout ''Final counter value: %d (expected: %d)\<newline>''
                [AInt c1, AInt ?x])
       (Read_counter Pointer (\<lambda>shared_counter.
        if shared_counter \<noteq> ?x then
          Read_counter Pointer (\<lambda>shared_counter.
          Call (Printf Stdout ''RACE CONDITION DETECTED! Lost updates: %d\<newline>''
                  [AInt (?x - shared_counter)])
          race_cleanup)
        else
          Call (Printf Stdout ''No race detected in this run (but race still exists!)\<newline>'' [])
          race_cleanup))) e2 = Some (Return c)"
    by blast
  from replay_Call_Return [OF e2(2)]
  obtain e3 where e3: "e2 = Did (Printf Stdout ''Final counter value: %d (expected: %d)\<newline>''
                [AInt c1, AInt ?x]) # e3"
    "replay (Read_counter Pointer (\<lambda>shared_counter.
        if shared_counter \<noteq> ?x then
          Read_counter Pointer (\<lambda>shared_counter.
          Call (Printf Stdout ''RACE CONDITION DETECTED! Lost updates: %d\<newline>''
                  [AInt (?x - shared_counter)])
          race_cleanup)
        else
          Call (Printf Stdout ''No race detected in this run (but race still exists!)\<newline>'' [])
          race_cleanup)) e3 = Some (Return c)"
    by blast
  from replay_Read_Return [OF e3(2)]
  obtain c2 e4 where e4: "e3 = Read_ev Pointer c2 # e4"
    "replay (if c2 \<noteq> ?x then
          Read_counter Pointer (\<lambda>shared_counter.
          Call (Printf Stdout ''RACE CONDITION DETECTED! Lost updates: %d\<newline>''
                  [AInt (?x - shared_counter)])
          race_cleanup)
        else
          Call (Printf Stdout ''No race detected in this run (but race still exists!)\<newline>'' [])
          race_cleanup) e4 = Some (Return c)"
    by blast
  have c1: "c1 = of_nat K" by (rule ok) (simp add: e1(1) e2(1))
  have c2: "c2 = of_nat K" by (rule ok) (simp add: e1(1) e2(1) e3(1) e4(1))
  have fin: "e = [Synced MPI_Win_free, Did MPI_Finalize]"
    if "replay race_cleanup e = Some (Return c)" for e
  proof -
    from replay_Collective_Return [OF that [unfolded race_cleanup_def]]
    obtain f1 where f1: "e = Synced MPI_Win_free # f1"
      "replay (Call MPI_Finalize (Return 0)) f1 = Some (Return c)" by blast
    from replay_Call_Return [OF f1(2)]
    obtain f2 where f2: "f1 = Did MPI_Finalize # f2" "replay (Return 0) f2 = Some (Return c)"
      by blast
    from replay_Return_Return [OF f2(2)] show ?thesis unfolding f1(1) f2(1) by simp
  qed
  show ?thesis
  proof (cases "c2 = ?x")
    case True
    with e4(2) have "replay (Call (Printf Stdout
        ''No race detected in this run (but race still exists!)\<newline>'' []) race_cleanup) e4
        = Some (Return c)"
      by (simp only: not_True_eq_False if_False simp_thms)
    from replay_Call_Return [OF this]
    obtain e5 where e5: "e4 = Did (Printf Stdout
        ''No race detected in this run (but race still exists!)\<newline>'' []) # e5"
      "replay race_cleanup e5 = Some (Return c)" by blast
    have x: "(of_nat K :: cint) = ?x" using True c2 by simp
    show ?thesis
      unfolding e1(1) e2(1) e3(1) e4(1) e5(1) fin [OF e5(2)] c1 c2 race_tail_def Let_def
      using x by simp
  next
    case False
    with e4(2) have "replay (Read_counter Pointer (\<lambda>shared_counter.
          Call (Printf Stdout ''RACE CONDITION DETECTED! Lost updates: %d\<newline>''
                  [AInt (?x - shared_counter)])
          race_cleanup)) e4 = Some (Return c)"
      by (simp only: if_True simp_thms)
    from replay_Read_Return [OF this]
    obtain c3 e5 where e5: "e4 = Read_ev Pointer c3 # e5"
      "replay (Call (Printf Stdout ''RACE CONDITION DETECTED! Lost updates: %d\<newline>''
                  [AInt (?x - c3)]) race_cleanup) e5 = Some (Return c)"
      by blast
    from replay_Call_Return [OF e5(2)]
    obtain e6 where e6: "e5 = Did (Printf Stdout ''RACE CONDITION DETECTED! Lost updates: %d\<newline>''
                  [AInt (?x - c3)]) # e6"
      "replay race_cleanup e6 = Some (Return c)" by blast
    have c3: "c3 = of_nat K" by (rule ok) (simp add: e1(1) e2(1) e3(1) e4(1) e5(1))
    have x: "(of_nat K :: cint) \<noteq> ?x" using False c2 by simp
    show ?thesis
      unfolding e1(1) e2(1) e3(1) e4(1) e5(1) e6(1) fin [OF e6(2)] c1 c2 c3 race_tail_def Let_def
      using x by simp
  qed
qed

lemma race_returns:
  assumes tr: "replay (race K 0 n) tr = Some (Return c)"
    and ok: "\<And>v. Read_ev Pointer v \<in> set tr \<Longrightarrow> v = of_nat K"
  shows "suffix (race_tail K n) tr"
proof -
  have "replay (Write_counter Pointer 0 (race_create K 0 n)) tr = Some (Return c)"
    using tr by (simp only: race_unfold [of K 0 n] if_True simp_thms)
  from replay_Write_Return [OF this]
  obtain e1 where e1: "tr = Wrote Pointer 0 # e1" "replay (race_create K 0 n) e1 = Some (Return c)"
    by blast
  from replay_Collective_Return [OF e1(2) [unfolded race_create_def]]
  obtain e2 where e2: "e1 = Synced MPI_Win_create # e2"
    "replay (Collective MPI_Barrier (race_start K 0 n)) e2 = Some (Return c)"
    by blast
  from replay_Collective_Return [OF e2(2)]
  obtain e3 where e3: "e2 = Synced MPI_Barrier # e3" "replay (race_start K 0 n) e3 = Some (Return c)"
    by blast
  from replay_Call_Return [OF e3(2) [unfolded race_start_def]]
  obtain g e4 where e4: "e3 = g # e4" "replay (race_head K 0 n 0) e4 = Some (Return c)"
    by blast
  have s4: "suffix e4 tr"
    unfolding e1(1) e2(1) e3(1) e4(1) by (intro suffix_ConsI suffix_order.refl)
  from race_head_returns [OF e4(2)] obtain es where
    es: "suffix es e4" "replay (race_after K 0 n) es = Some (Return c)" by blast
  have s: "suffix es tr" by (rule suffix_order.trans [OF es(1) s4])
  have "es = race_tail K n"
  proof (rule race_after_returns [OF es(2)])
    fix v assume "Read_ev Pointer v \<in> set es"
    then have "Read_ev Pointer v \<in> set tr" using set_mono_suffix [OF s] by (rule subsetD [rotated])
    then show "v = of_nat K" by (rule ok)
  qed
  then show ?thesis using s by simp
qed

lemma race_final:
  assumes r: "run e (init (race K) n mem) w" and n: "0 < n" and st: "stuck e w"
  shows "procs w = replicate n (Return 0) \<and> counter w = of_nat K \<and>
    suffix (race_tail K n) (trace w ! 0)"
proof -
  have inv: "race_inv K n w" using r n by (rule race_inv_run)
  note D = consistentD [OF consistent_run [OF r]]
  have fin: "\<forall>r<n. procs w ! r = Return 0" "counter w = of_nat K"
    using race_stuck [OF inv n st] by simp_all
  have "procs w = replicate n (Return 0)"
    using fin(1) D(1) by (auto intro: nth_equalityI)
  moreover have "suffix (race_tail K n) (trace w ! 0)"
  proof (rule race_returns)
    show "replay (race K 0 n) (trace w ! 0) = Some (Return 0)"
      using D(3) [OF n] fin(1) n by simp
    show "v = of_nat K" if "Read_ev Pointer v \<in> set (trace w ! 0)" for v
      using ptr_ok_run [OF r n] D(2) n that unfolding ptr_ok_def by blast
  qed
  ultimately show ?thesis using fin(2) by simp
qed

lemma race_final_history:
  assumes r: "run e (init (race K) n mem) w" and n: "0 < n" and st: "stuck e w"
  shows "\<exists>pre. trace w ! 0 = pre @
      [Synced MPI_Barrier,
       Read_ev Pointer (counter w),
       Did (Printf Stdout ''Final counter value: %d (expected: %d)\<newline>''
              [AInt (counter w), AInt (of_nat K * of_nat n)]),
       Read_ev Pointer (counter w)] @
      (if counter w \<noteq> of_nat K * of_nat n then
         [Read_ev Pointer (counter w),
          Did (Printf Stdout ''RACE CONDITION DETECTED! Lost updates: %d\<newline>''
                 [AInt (of_nat K * of_nat n - counter w)])]
       else
         [Did (Printf Stdout ''No race detected in this run (but race still exists!)\<newline>'' [])]) @
      [Synced MPI_Win_free, Did MPI_Finalize]"
proof -
  note f = race_final [OF r n st]
  from f obtain pre where pre: "trace w ! 0 = pre @ race_tail K n"
    unfolding suffix_def by blast
  have c: "counter w = of_nat K" using f by simp
  show ?thesis
    unfolding c pre race_tail_def Let_def by (intro exI [of _ pre]) (rule refl)
qed

lemma race_terminates: "terminates e (init (race K) n mem)"
  by (rule terminates_init) (rule race_depth)

lemma sint_of_nat_small: "K < 2 ^ 31 \<Longrightarrow> sint (of_nat K :: cint) = int K"
  by (simp add: signed_of_nat signed_take_bit_int_eq_self)

lemma of_nat_eq_small:
  "a < 2 ^ 31 \<Longrightarrow> b < 2 ^ 31 \<Longrightarrow> (of_nat a :: cint) = of_nat b \<longleftrightarrow> a = b"
  by (metis sint_of_nat_small of_nat_eq_iff)

lemma mult_eq_self: "(K::nat) = n * K \<longleftrightarrow> n = 1 \<or> K = 0"
  by auto

lemma race_mismatch:
  assumes "0 < n" "n * K < 2 ^ 31"
  shows "(of_nat K :: cint) \<noteq> of_nat K * of_nat n \<longleftrightarrow> 2 \<le> n \<and> 0 < K"
proof -
  have "K \<le> n * K" using assms(1) by simp
  then have k: "K < 2 ^ 31" using assms(2) by (rule le_less_trans)
  have e: "(of_nat K :: cint) * of_nat n = of_nat (n * K)" by (simp add: mult.commute)
  show ?thesis
    unfolding e of_nat_eq_small [OF k assms(2)] mult_eq_self using assms(1) by auto
qed

text  \<open>
  C7. With \<open>n \<ge> 1\<close> ranks that each run \<open>K\<close> fenced get/increment/put iterations (and
  \<open>n * K\<close> within the range of \<open>int\<close>), every execution of the race-condition program
  completes with every rank returned, and the final value of the shared counter is at most
  \<open>n * K\<close>. In fact it is exactly \<open>K\<close>: in every epoch all ranks read the same value
  and write back the same successor. So the naive expected value \<open>n * K\<close> is never
  exceeded, and it is reached only with a single rank or with no iteration at all.
\<close>

theorem race_counter_bound:
  assumes "0 < n" and "n * K < 2 ^ 31"
  shows "terminates e (init (race K) n mem) \<and>
   (\<forall>w. run e (init (race K) n mem) w \<and> stuck e w \<longrightarrow>
      procs w = replicate n (Return 0) \<and>
      sint (counter w) \<le> int (n * K) \<and>
      sint (counter w) = int K \<and>
      (sint (counter w) = int (n * K) \<longleftrightarrow> n = 1 \<or> K = 0))"
proof (intro conjI allI impI)
  show "terminates e (init (race K) n mem)" by (rule race_terminates)
next
  fix w assume "run e (init (race K) n mem) w \<and> stuck e w"
  then have r: "run e (init (race K) n mem) w" and st: "stuck e w" by simp_all
  have k: "K \<le> n * K" using assms(1) by simp
  then have "K < 2 ^ 31" using assms(2) by (rule le_less_trans)
  then have c: "sint (counter w) = int K"
    using race_final [OF r assms(1) st] by (simp add: sint_of_nat_small)
  show "procs w = replicate n (Return 0)"
    using race_final [OF r assms(1) st] by simp
  show "sint (counter w) = int K" by (rule c)
  show "sint (counter w) \<le> int (n * K)" unfolding c using k by (simp only: of_nat_le_iff)
  show "sint (counter w) = int (n * K) \<longleftrightarrow> n = 1 \<or> K = 0"
    unfolding c of_nat_eq_iff by (rule mult_eq_self)
qed

theorem race_counter_bound_witness:
  "0 < (2::nat) \<and> (2::nat) * 2 < 2 ^ 31 \<and>
   terminates env0 (init (race 2) 2 7) \<and>
   run env0 (init (race 2) 2 7) (exec 60 env0 (init (race 2) 2 7)) \<and>
   stuck env0 (exec 60 env0 (init (race 2) 2 7)) \<and>
   counter (exec 60 env0 (init (race 2) 2 7)) = 2 \<and>
   sint (counter (exec 60 env0 (init (race 2) 2 7))) \<le> 4"
proof -
  note t = race_counter_bound [where n = 2 and K = 2 and e = env0 and mem = 7]
  have r: "run env0 (init (race 2) 2 7) (exec 60 env0 (init (race 2) 2 7))"
    by (rule run_exec)
  have s: "stuck env0 (exec 60 env0 (init (race 2) 2 7))"
    by code_simp
  have c: "counter (exec 60 env0 (init (race 2) 2 7)) = 2"
    by code_simp
  have "sint (counter (exec 60 env0 (init (race 2) 2 7))) \<le> 4"
    using t r s by simp
  then show ?thesis using t r s c by simp
qed

text  \<open>
  C8. After the loop and a barrier, rank 0 reads the shared counter, prints it next to the
  expected value \<open>n * K\<close>, and compares the two: on a mismatch it prints the number of lost
  updates, otherwise that no race was detected. Nothing else depends on the comparison:
  in either case the window is freed, MPI is finalized, and every rank returns 0. With
  \<open>n * K\<close> within the range of \<open>int\<close>, the mismatch occurs exactly when there are at least
  two ranks and at least one iteration.
\<close>

theorem race_mismatch_reported:
  assumes "0 < n" and "n * K < 2 ^ 31"
  shows "terminates e (init (race K) n mem) \<and>
   (\<forall>w. run e (init (race K) n mem) w \<and> stuck e w \<longrightarrow>
      procs w = replicate n (Return 0) \<and>
      (\<exists>pre. trace w ! 0 = pre @
         [Synced MPI_Barrier,
          Read_ev Pointer (counter w),
          Did (Printf Stdout ''Final counter value: %d (expected: %d)\<newline>''
                 [AInt (counter w), AInt (of_nat K * of_nat n)]),
          Read_ev Pointer (counter w)] @
         (if counter w \<noteq> of_nat K * of_nat n then
            [Read_ev Pointer (counter w),
             Did (Printf Stdout ''RACE CONDITION DETECTED! Lost updates: %d\<newline>''
                    [AInt (of_nat K * of_nat n - counter w)])]
          else
            [Did (Printf Stdout ''No race detected in this run (but race still exists!)\<newline>'' [])]) @
         [Synced MPI_Win_free, Did MPI_Finalize]) \<and>
      (counter w \<noteq> of_nat K * of_nat n \<longleftrightarrow> 2 \<le> n \<and> 0 < K))"
proof (intro conjI allI impI)
  show "terminates e (init (race K) n mem)" by (rule race_terminates)
next
  fix w assume "run e (init (race K) n mem) w \<and> stuck e w"
  then have r: "run e (init (race K) n mem) w" and st: "stuck e w" by simp_all
  note f = race_final [OF r assms(1) st]
  show "procs w = replicate n (Return 0)" using f by simp
  show "\<exists>pre. trace w ! 0 = pre @
         [Synced MPI_Barrier,
          Read_ev Pointer (counter w),
          Did (Printf Stdout ''Final counter value: %d (expected: %d)\<newline>''
                 [AInt (counter w), AInt (of_nat K * of_nat n)]),
          Read_ev Pointer (counter w)] @
         (if counter w \<noteq> of_nat K * of_nat n then
            [Read_ev Pointer (counter w),
             Did (Printf Stdout ''RACE CONDITION DETECTED! Lost updates: %d\<newline>''
                    [AInt (of_nat K * of_nat n - counter w)])]
          else
            [Did (Printf Stdout ''No race detected in this run (but race still exists!)\<newline>'' [])]) @
         [Synced MPI_Win_free, Did MPI_Finalize]"
    by (rule race_final_history [OF r assms(1) st])
  have "counter w = of_nat K" using f by simp
  then show "counter w \<noteq> of_nat K * of_nat n \<longleftrightarrow> 2 \<le> n \<and> 0 < K"
    using race_mismatch [OF assms] by simp
qed

theorem race_mismatch_reported_witness:
  "0 < (2::nat) \<and> (2::nat) * 2 < 2 ^ 31 \<and>
   run env0 (init (race 2) 2 7) (exec 60 env0 (init (race 2) 2 7)) \<and>
   stuck env0 (exec 60 env0 (init (race 2) 2 7)) \<and>
   procs (exec 60 env0 (init (race 2) 2 7)) = [Return 0, Return 0] \<and>
   (\<exists>pre. trace (exec 60 env0 (init (race 2) 2 7)) ! 0 = pre @
      [Synced MPI_Barrier,
       Read_ev Pointer 2,
       Did (Printf Stdout ''Final counter value: %d (expected: %d)\<newline>'' [AInt 2, AInt 4]),
       Read_ev Pointer 2,
       Read_ev Pointer 2,
       Did (Printf Stdout ''RACE CONDITION DETECTED! Lost updates: %d\<newline>'' [AInt 2]),
       Synced MPI_Win_free, Did MPI_Finalize])"
proof -
  have h1: "0 < (2::nat)" by simp
  have h2: "(2::nat) * 2 < 2 ^ 31" by simp
  have r: "run env0 (init (race 2) 2 7) (exec 60 env0 (init (race 2) 2 7))"
    by (rule run_exec)
  have s: "stuck env0 (exec 60 env0 (init (race 2) 2 7))"
    by code_simp
  have c: "counter (exec 60 env0 (init (race 2) 2 7)) = 2"
    by code_simp
  note t = race_mismatch_reported [where n = 2 and K = 2 and e = env0 and mem = 7, OF h1 h2]
  note u = t [THEN conjunct2, rule_format, OF conjI [OF r s], unfolded c]
  have p: "procs (exec 60 env0 (init (race 2) 2 7)) = [Return 0, Return 0]"
    using u by (simp add: numeral_2_eq_2)
  have "\<exists>pre. trace (exec 60 env0 (init (race 2) 2 7)) ! 0 = pre @
      [Synced MPI_Barrier,
       Read_ev Pointer 2,
       Did (Printf Stdout ''Final counter value: %d (expected: %d)\<newline>'' [AInt 2, AInt 4]),
       Read_ev Pointer 2,
       Read_ev Pointer 2,
       Did (Printf Stdout ''RACE CONDITION DETECTED! Lost updates: %d\<newline>'' [AInt 2]),
       Synced MPI_Win_free, Did MPI_Finalize]"
    using u by simp
  then show ?thesis using r s p by simp
qed

text  \<open>
  C9. With a single rank the race-condition program completes in every execution with the
  shared counter equal to \<open>NUM_INCREMENTS = 1000\<close>, which is also the expected value; rank 0
  reads 1000, prints it with the expected 1000, prints that no race was detected, and
  returns 0.
\<close>

theorem race_single_rank:
  "terminates e (init race_main 1 mem) \<and>
   (\<forall>w. run e (init race_main 1 mem) w \<and> stuck e w \<longrightarrow>
      counter w = of_nat NUM_INCREMENTS \<and> sint (counter w) = 1000 \<and>
      procs w = [Return 0] \<and>
      (\<exists>pre. trace w ! 0 = pre @
         [Synced MPI_Barrier,
          Read_ev Pointer 1000,
          Did (Printf Stdout ''Final counter value: %d (expected: %d)\<newline>''
                 [AInt 1000, AInt 1000]),
          Read_ev Pointer 1000,
          Did (Printf Stdout ''No race detected in this run (but race still exists!)\<newline>'' []),
          Synced MPI_Win_free, Did MPI_Finalize]))"
proof (intro conjI allI impI)
  show "terminates e (init race_main 1 mem)"
    unfolding race_main_def by (rule race_terminates)
next
  fix w assume "run e (init race_main 1 mem) w \<and> stuck e w"
  then have r: "run e (init (race 1000) 1 mem) w" and st: "stuck e w"
    by (simp_all add: race_main_def NUM_INCREMENTS_def)
  note f = race_final [OF r _ st]
  have c: "counter w = 1000" using f by simp
  show "counter w = of_nat NUM_INCREMENTS" using c by (simp add: NUM_INCREMENTS_def)
  show "sint (counter w) = 1000" unfolding c by simp
  show "procs w = [Return 0]" using f by simp
  show "\<exists>pre. trace w ! 0 = pre @
         [Synced MPI_Barrier,
          Read_ev Pointer 1000,
          Did (Printf Stdout ''Final counter value: %d (expected: %d)\<newline>''
                 [AInt 1000, AInt 1000]),
          Read_ev Pointer 1000,
          Did (Printf Stdout ''No race detected in this run (but race still exists!)\<newline>'' []),
          Synced MPI_Win_free, Did MPI_Finalize]"
    using race_final_history [OF r _ st] unfolding c by simp
qed

theorem race_single_rank_witness:
  "\<exists>w. run env0 (init race_main 1 0) w \<and> stuck env0 w \<and> counter w = 1000 \<and>
     procs w = [Return 0]"
proof -
  note t = race_single_rank [of env0 0]
  have "terminates env0 (init race_main 1 0)" using t by simp
  then obtain w where w: "run env0 (init race_main 1 0) w" "stuck env0 w"
    using terminates_ends by blast
  then have "counter w = 1000 \<and> procs w = [Return 0]"
    using t by (simp add: NUM_INCREMENTS_def)
  then show ?thesis using w by blast
qed

section \<open>Exit codes\<close>















end
